theory Spec2Isabelle
  imports Main "HOL-Library.AList" "HOL-Library.Multiset" "HOL-Library.Char_ord"
    "HOL-Library.List_Lexorder"
begin

section \<open>The task runner of \<^verbatim>\<open>task.ts\<close>: data and platform\<close>

text \<open>
  A JavaScript string is modelled by the bytes of its UTF-8 encoding, a \<^typ>\<open>string\<close>;
  the content of a file (a \<^verbatim>\<open>Uint8Array\<close>) is a list of bytes as well.
\<close>

type_synonym path = string
type_synonym bytes = string

text \<open>\<^verbatim>\<open>interface Task\<close>: an optional field is an \<^typ>\<open>'a option\<close>.\<close>

record task =
  command :: string
  depends_on :: "string list option"
  inputs :: "string list option"
  outputs :: "string list option"
  cache :: "bool option"

text \<open>\<^verbatim>\<open>interface Scripts\<close>: the own properties of the object of tasks.json.\<close>

type_synonym scripts = "(string \<times> task) list"

text \<open>
  \<^verbatim>\<open>scripts[script_name]\<close> is a property lookup: a name that is no own property is looked up
  in \<^verbatim>\<open>Object.prototype\<close>, whose members are functions, and the accessor \<^verbatim>\<open>__proto__\<close>, which
  answers \<^verbatim>\<open>Object.prototype\<close> itself. Every such value is an object without any of the
  properties of a task; only a name found nowhere gives \<^verbatim>\<open>undefined\<close>.
\<close>

definition object_prototype_members :: "string list" where
  "object_prototype_members =
     [''constructor'', ''__defineGetter__'', ''__defineSetter__'', ''hasOwnProperty'',
      ''__lookupGetter__'', ''__lookupSetter__'', ''isPrototypeOf'', ''propertyIsEnumerable'',
      ''toString'', ''valueOf'', ''__proto__'', ''toLocaleString'']"

datatype property = Undefined | Inherited | Own task

definition get_script :: "scripts \<Rightarrow> string \<Rightarrow> property" where
  "get_script ss name =
     (case map_of ss name of
        Some t \<Rightarrow> Own t
      | None \<Rightarrow> (if name \<in> set object_prototype_members then Inherited else Undefined))"

subsection \<open>The working tree\<close>

text \<open>
  The working tree is a flat table from path to what is found there: a regular file that
  can be opened, a regular file the process may not open (no permission; its bytes are
  there all the same), or a directory.
  A path with no entry does not exist.
\<close>

datatype entry = File bytes | Unreadable bytes | Dir

type_synonym fs = "(path \<times> entry) list"

text \<open>\<^verbatim>\<open>Bun.file(p).bytes()\<close>; \<open>None\<close> when it throws.\<close>

definition read_bytes :: "fs \<Rightarrow> path \<Rightarrow> bytes option" where
  "read_bytes tree p = (case map_of tree p of Some (File b) \<Rightarrow> Some b | _ \<Rightarrow> None)"

text \<open>\<^verbatim>\<open>unlinkSync(p)\<close>; \<open>None\<close> when it throws (no such file, or a directory).\<close>

definition unlinkSync :: "fs \<Rightarrow> path \<Rightarrow> fs option" where
  "unlinkSync tree p =
     (case map_of tree p of
        Some (File b) \<Rightarrow> Some (AList.delete p tree)
      | Some (Unreadable b) \<Rightarrow> Some (AList.delete p tree)
      | _ \<Rightarrow> None)"

text \<open>\<^verbatim>\<open>Bun.write(p, content)\<close>; \<open>None\<close> when it rejects (a directory, or no permission).\<close>

definition bun_write :: "fs \<Rightarrow> path \<Rightarrow> bytes \<Rightarrow> fs option" where
  "bun_write tree p b =
     (case map_of tree p of
        Some Dir \<Rightarrow> None
      | Some (Unreadable b') \<Rightarrow> None
      | _ \<Rightarrow> Some (AList.update p (File b) tree))"

definition is_regular :: "entry option \<Rightarrow> bool" where
  "is_regular e = (case e of Some (File b) \<Rightarrow> True | Some (Unreadable b) \<Rightarrow> True | _ \<Rightarrow> False)"

subsection \<open>The platform\<close>

text \<open>
  What the program calls and does not define is a parameter:
  \<^item> \<open>sha256\<close>: \<^verbatim>\<open>new Bun.CryptoHasher('sha256')\<close>, \<^verbatim>\<open>update\<close>, \<^verbatim>\<open>digest('base64')\<close>;
  \<^item> \<open>text_decode\<close>: the decoding of a file's bytes by \<^verbatim>\<open>Bun.file(p).text()\<close>, given as
    the UTF-8 bytes of the decoded text (what the hasher is then fed);
  \<^item> \<open>glob_match\<close>: whether a \<^verbatim>\<open>Glob\<close> pattern matches a path;
  \<^item> \<open>localeCompare\<close>: \<^verbatim>\<open>a.localeCompare(b)\<close>;
  \<^item> \<open>shell\<close>: running a command line with \<^verbatim>\<open>$\<close> in a working tree: the standard output
    when it exits with 0 (\<open>None\<close> when the promise rejects) and the working tree it leaves;
  \<^item> \<open>sqlite_dump\<close>: the command \<^verbatim>\<open>sqlite3 cache.sqlite .dump > cache.sql\<close>, which sees the two
    tables; \<open>None\<close> when it fails;
  \<^item> \<open>inherited_assignment\<close>: what becomes of the assignment \<^verbatim>\<open>o[k] = v\<close> of a name that \<open>o\<close>
    does not have, other than \<^verbatim>\<open>__proto__\<close>, when \<open>o\<close> inherits from a \<^verbatim>\<open>Uint8Array\<close> with the
    given bytes. The array and its prototypes decide: a canonical numeric string that is no
    valid index of the array is swallowed (nothing is stored and nothing is thrown); a name
    that they define without a setter or as read-only (such as \<^verbatim>\<open>length\<close>) makes the
    assignment throw, the module being in strict mode; any other name is created in \<open>o\<close>.
\<close>

record cache_row =
  cache_id :: nat
  task_name :: string
  cache_inputs :: string
  cache_stdout :: string

record output_row =
  task_id :: nat
  out_path :: path
  out_hash :: "string option"
  out_content :: "bytes option"

datatype assignment = Creates | Swallows | Rejects

record env =
  sha256 :: "bytes \<Rightarrow> string"
  text_decode :: "bytes \<Rightarrow> bytes"
  glob_match :: "string \<Rightarrow> path \<Rightarrow> bool"
  localeCompare :: "string \<Rightarrow> string \<Rightarrow> int"
  shell :: "string \<Rightarrow> fs \<Rightarrow> string option \<times> fs"
  sqlite_dump :: "cache_row list \<Rightarrow> output_row list \<Rightarrow> fs \<Rightarrow> fs option"
  inherited_assignment :: "bytes \<Rightarrow> string \<Rightarrow> assignment"

text \<open>\<^verbatim>\<open>Bun.file(p).text()\<close>; \<open>None\<close> when it throws.\<close>

definition read_text :: "env \<Rightarrow> fs \<Rightarrow> path \<Rightarrow> string option" where
  "read_text e tree p = map_option (text_decode e) (read_bytes tree p)"

text \<open>
  \<^verbatim>\<open>new Glob(pattern).scan()\<close>: the regular files of the working tree that the pattern
  matches (directories are not reported), in the order of the tree.
\<close>

definition scan :: "env \<Rightarrow> string \<Rightarrow> fs \<Rightarrow> path list" where
  "scan e pattern tree =
     filter (\<lambda>p. is_regular (map_of tree p) \<and> glob_match e pattern p) (remdups (map fst tree))"

text \<open>\<^verbatim>\<open>pattern.includes('*') ? new Glob(pattern).scan() : [pattern]\<close>\<close>

definition resolve :: "env \<Rightarrow> fs \<Rightarrow> string \<Rightarrow> path list" where
  "resolve e tree pattern = (if CHR ''*'' \<in> set pattern then scan e pattern tree else [pattern])"

subsection \<open>JavaScript objects, sorting and JSON\<close>

text \<open>
  The own properties of an object with string keys are an association list in the order of
  creation of the keys. Defining a property replaces the value of an existing key in place
  and appends a new key; it is \<^const>\<open>AList.update\<close>.
\<close>

type_synonym 'v obj = "(string \<times> 'v) list"

text \<open>
  \<^verbatim>\<open>o[k] = v\<close> for an object literal \<open>o\<close> and a string \<open>v\<close> (line 63). The name \<^verbatim>\<open>__proto__\<close> is
  an accessor inherited from \<^verbatim>\<open>Object.prototype\<close>: its setter ignores a string, and no
  property is created.
\<close>

definition obj_set :: "string obj \<Rightarrow> string \<Rightarrow> string \<Rightarrow> string obj" where
  "obj_set ob k v = (if k = ''__proto__'' then ob else AList.update k v ob)"

text \<open>
  \<^verbatim>\<open>o[k] = v\<close> for an object literal \<open>o\<close> and a \<open>v\<close> that is a \<^verbatim>\<open>Uint8Array\<close> or \<^verbatim>\<open>null\<close> (lines 91
  and 94). Here the setter of \<^verbatim>\<open>__proto__\<close> replaces the prototype of \<open>o\<close> by \<open>v\<close>, so the
  prototype is part of the state:
  \<^item> an own property is assigned in place;
  \<^item> \<^verbatim>\<open>__proto__\<close> that is no own property reaches the setter as long as
    \<^verbatim>\<open>Object.prototype\<close> is at the end of the chain, and creates no property; once the
    prototype is \<^verbatim>\<open>null\<close> it is a name like any other;
  \<^item> another new name is created, unless the prototype is an array that swallows or rejects
    it.

  The result is \<open>None\<close> when the assignment throws.
\<close>

datatype proto = ObjectPrototype | TypedArray bytes | NullPrototype

definition out_set ::
  "env \<Rightarrow> proto \<times> bytes option obj \<Rightarrow> string \<Rightarrow> bytes option \<Rightarrow>
   (proto \<times> bytes option obj) option" where
  "out_set e po k v =
     (if k \<in> set (map fst (snd po)) then Some (fst po, AList.update k v (snd po))
      else if k = ''__proto__'' then
        (case fst po of
           NullPrototype \<Rightarrow> Some (NullPrototype, AList.update k v (snd po))
         | _ \<Rightarrow>
             (case v of
                None \<Rightarrow> Some (NullPrototype, snd po)
              | Some b \<Rightarrow> Some (TypedArray b, snd po)))
      else
        (case fst po of
           TypedArray b \<Rightarrow>
             (case inherited_assignment e b k of
                Creates \<Rightarrow> Some (fst po, AList.update k v (snd po))
              | Swallows \<Rightarrow> Some po
              | Rejects \<Rightarrow> None)
         | _ \<Rightarrow> Some (fst po, AList.update k v (snd po))))"

text \<open>
  Enumeration (\<^verbatim>\<open>Object.entries\<close>, \<^verbatim>\<open>JSON.stringify\<close>) lists the keys that are array
  indices first, in ascending numeric order, then the other keys in the order of creation.
  An array index is a canonical decimal numeral below \<open>2\<^sup>3\<^sup>2 - 1\<close>.
\<close>

definition is_digit :: "char \<Rightarrow> bool" where
  "is_digit c = (48 \<le> (of_char c :: nat) \<and> (of_char c :: nat) \<le> 57)"

definition digits_value :: "string \<Rightarrow> nat" where
  "digits_value s = foldl (\<lambda>n c. 10 * n + ((of_char c :: nat) - 48)) 0 s"

definition is_array_index :: "string \<Rightarrow> bool" where
  "is_array_index s =
     (s \<noteq> [] \<and> list_all is_digit s \<and> (hd s \<noteq> CHR ''0'' \<or> s = ''0'')
      \<and> digits_value s < 2 ^ 32 - 1)"

definition own_entries :: "'v obj \<Rightarrow> (string \<times> 'v) list" where
  "own_entries ob =
     sort_key (\<lambda>kv. digits_value (fst kv)) (filter (\<lambda>kv. is_array_index (fst kv)) ob)
     @ filter (\<lambda>kv. \<not> is_array_index (fst kv)) ob"

text \<open>\<^verbatim>\<open>Object.fromEntries(list)\<close> defines one property after the other.\<close>

definition fromEntries :: "(string \<times> 'v) list \<Rightarrow> 'v obj" where
  "fromEntries kvs = foldl (\<lambda>ob kv. AList.update (fst kv) (snd kv) ob) [] kvs"

text \<open>
  \<^verbatim>\<open>list.sort(cmp)\<close> is stable: with a comparator that is a consistent order every stable
  sort gives the same list, here by insertion (\<open>x\<close> goes before the first element it does
  not follow).
\<close>

fun insort_by :: "('a \<Rightarrow> 'a \<Rightarrow> int) \<Rightarrow> 'a \<Rightarrow> 'a list \<Rightarrow> 'a list" where
  "insort_by cmp x [] = [x]"
| "insort_by cmp x (y # ys) = (if cmp x y \<le> 0 then x # y # ys else y # insort_by cmp x ys)"

definition sort_by :: "('a \<Rightarrow> 'a \<Rightarrow> int) \<Rightarrow> 'a list \<Rightarrow> 'a list" where
  "sort_by cmp xs = foldr (insort_by cmp) xs []"

text \<open>
  \<^verbatim>\<open>JSON.stringify\<close> of a string: the quotation mark and the backslash are escaped with a
  backslash, the control characters by their two-character escape or by \<^verbatim>\<open>\u00XX\<close> in
  lower-case hexadecimal.
\<close>

definition hex_digit :: "nat \<Rightarrow> char" where
  "hex_digit n = (if n < 10 then char_of (48 + n) else char_of (87 + n))"

definition json_escape :: "char \<Rightarrow> string" where
  "json_escape c =
     (let n = (of_char c :: nat) in
      if n = 0x22 then [CHR 0x5C, CHR 0x22]
      else if n = 0x5C then [CHR 0x5C, CHR 0x5C]
      else if n = 8 then [CHR 0x5C, CHR ''b'']
      else if n = 9 then [CHR 0x5C, CHR ''t'']
      else if n = 10 then [CHR 0x5C, CHR ''n'']
      else if n = 12 then [CHR 0x5C, CHR ''f'']
      else if n = 13 then [CHR 0x5C, CHR ''r'']
      else if n < 0x20 then
        [CHR 0x5C, CHR ''u'', CHR ''0'', CHR ''0'', hex_digit (n div 16), hex_digit (n mod 16)]
      else [c])"

definition json_quote :: "string \<Rightarrow> string" where
  "json_quote s = CHR 0x22 # concat (map json_escape s) @ [CHR 0x22]"

fun json_members :: "(string \<times> string) list \<Rightarrow> string" where
  "json_members [] = []"
| "json_members [kv] = json_quote (fst kv) @ CHR '':'' # json_quote (snd kv)"
| "json_members (kv # kvs) =
     json_quote (fst kv) @ CHR '':'' # json_quote (snd kv) @ CHR '','' # json_members kvs"

text \<open>
  \<^verbatim>\<open>JSON.stringify({ command, files })\<close> for a string \<open>command\<close> and an object \<open>files\<close> of
  strings.
\<close>

definition json_fingerprint :: "string \<Rightarrow> string obj \<Rightarrow> string" where
  "json_fingerprint cmd fileobj =
     CHR ''{'' # json_quote ''command'' @ CHR '':'' # json_quote cmd @ CHR '','' #
     json_quote ''files'' @ CHR '':'' # CHR ''{'' # json_members (own_entries fileobj)
     @ [CHR ''}'', CHR ''}'']"

text \<open>
  The same for a \<open>command\<close> that is \<^verbatim>\<open>undefined\<close> and no files: a property whose value is
  \<^verbatim>\<open>undefined\<close> is left out.
\<close>

definition json_fingerprint_undefined :: string where
  "json_fingerprint_undefined =
     CHR ''{'' # json_quote ''files'' @ CHR '':'' # [CHR ''{'', CHR ''}'', CHR ''}'']"

section \<open>Console output\<close>

text \<open>
  One constructor for each \<^verbatim>\<open>console.log\<close>, \<^verbatim>\<open>console.warn\<close> and \<^verbatim>\<open>console.error\<close> of
  the program, with the values it interpolates.
\<close>

datatype event =
    WarnInput path
  | WarnOutput path
  | LoadingTasks
  | UsageHeader
  | UsageAvailable
  | UsageEntry string
  | UsageEntryDeps string string
  | CacheHit string
  | OutputFromCache string
  | Stdout string
  | Starting string
  | CommandLine string
  | Finished string
  | DatabaseReset
  | ScriptNotFound string
  | RestoringTask nat
  | RestoringFiles nat
  | Clearing path
  | WarnDelete path
  | Skipping path
  | Writing path

section \<open>Exceptions\<close>

text \<open>
  What the functions of the program throw, or let through: a function either returns or
  ends with one of these.
\<close>

datatype error =
    UnknownTask string
  | InvalidShellValue
  | CommandFailed string
  | AssignmentFailed path
  | WriteFailed path
  | ConstraintFailed
  | DumpFailed

datatype outcome = Returned | Threw error

section \<open>Fingerprint of the inputs\<close>

text \<open>
  The body of the inner loop of \<^verbatim>\<open>hashInputs\<close>: the digest of the file's text is stored
  under its path; a file that cannot be read is only warned about.
\<close>

definition hash_file :: "env \<Rightarrow> fs \<Rightarrow> string obj \<times> event list \<Rightarrow> path \<Rightarrow> string obj \<times> event list" where
  "hash_file e tree acc filepath =
     (case read_text e tree filepath of
        Some content \<Rightarrow> (obj_set (fst acc) filepath (sha256 e content), snd acc)
      | None \<Rightarrow> (fst acc, snd acc @ [WarnInput filepath]))"

text \<open>The two loops of \<^verbatim>\<open>hashInputs\<close>: the object \<^verbatim>\<open>inputs\<close> and the warnings printed.\<close>

definition collect_inputs :: "env \<Rightarrow> task \<Rightarrow> fs \<Rightarrow> string obj \<times> event list" where
  "collect_inputs e t tree =
     foldl (hash_file e tree) ([], [])
       (concat (map (resolve e tree) (case inputs t of None \<Rightarrow> [] | Some ps \<Rightarrow> ps)))"

text \<open>The object \<^verbatim>\<open>files\<close> that is serialised: the entries sorted, made an object again.\<close>

definition sorted_files :: "env \<Rightarrow> string obj \<Rightarrow> string obj" where
  "sorted_files e ob =
     fromEntries (sort_by (\<lambda>a b. localeCompare e (fst a) (fst b)) (own_entries ob))"

definition hashInputs :: "env \<Rightarrow> task \<Rightarrow> fs \<Rightarrow> string \<times> event list" where
  "hashInputs e t tree =
     (let r = collect_inputs e t tree
      in (json_fingerprint (command t) (sorted_files e (fst r)), snd r))"

section \<open>Capture of the outputs\<close>

text \<open>
  The body of the inner loop of \<^verbatim>\<open>prepareOutputs\<close>: the bytes of the file are stored under
  its path, or \<^verbatim>\<open>null\<close> with a warning when the \<^verbatim>\<open>try\<close> block throws, be it the read or the
  assignment of line 91. The result is the object after it and what was printed; the object
  is \<open>None\<close> when the assignment of line 94, which nothing catches, throws.
\<close>

definition capture_file ::
  "env \<Rightarrow> fs \<Rightarrow> proto \<times> bytes option obj \<Rightarrow> path \<Rightarrow>
   (proto \<times> bytes option obj) option \<times> event list" where
  "capture_file e tree po filepath =
     (case read_bytes tree filepath of
        Some content \<Rightarrow>
          (case out_set e po filepath (Some content) of
             Some po' \<Rightarrow> (Some po', [])
           | None \<Rightarrow> (out_set e po filepath None, [WarnOutput filepath]))
      | None \<Rightarrow> (out_set e po filepath None, [WarnOutput filepath]))"

text \<open>
  The loops of \<^verbatim>\<open>prepareOutputs\<close> over the resolved paths: the own properties of \<^verbatim>\<open>outputs\<close>, the
  warnings printed, and whether the function returned.
\<close>

fun capture_files ::
  "env \<Rightarrow> fs \<Rightarrow> path list \<Rightarrow> (proto \<times> bytes option obj) \<times> event list \<Rightarrow>
   bytes option obj \<times> event list \<times> outcome" where
  "capture_files e tree [] acc = (snd (fst acc), snd acc, Returned)"
| "capture_files e tree (filepath # rest) acc =
     (case capture_file e tree (fst acc) filepath of
        (Some po, warned) \<Rightarrow> capture_files e tree rest (po, snd acc @ warned)
      | (None, warned) \<Rightarrow>
          (snd (fst acc), snd acc @ warned, Threw (AssignmentFailed filepath)))"

definition prepareOutputs ::
  "env \<Rightarrow> task \<Rightarrow> fs \<Rightarrow> bytes option obj \<times> event list \<times> outcome" where
  "prepareOutputs e t tree =
     capture_files e tree
       (concat (map (resolve e tree) (case outputs t of None \<Rightarrow> [] | Some ps \<Rightarrow> ps)))
       ((ObjectPrototype, []), [])"

section \<open>The cache database\<close>

text \<open>
  The two tables are lists of rows in the order of insertion. The column \<^verbatim>\<open>timestamp\<close> is
  never read and is left out. An identifier of \<^verbatim>\<open>randomUUIDv7()\<close> is a number drawn from
  a counter.
\<close>

record world =
  files :: fs
  task_cache :: "cache_row list"
  task_output :: "output_row list"
  console :: "event list"
  uuid_counter :: nat

definition log :: "event \<Rightarrow> world \<Rightarrow> world" where
  "log ev w = w\<lparr>console := console w @ [ev]\<rparr>"

text \<open>\<^verbatim>\<open>SELECT * FROM task_cache WHERE task_name = ? AND inputs = ?\<close> with \<^verbatim>\<open>get\<close>: the first row.\<close>

definition select_cached :: "cache_row list \<Rightarrow> string \<Rightarrow> string \<Rightarrow> cache_row option" where
  "select_cached tbl name fp = find (\<lambda>r. task_name r = name \<and> cache_inputs r = fp) tbl"

text \<open>
  \<^verbatim>\<open>SELECT * FROM task_output WHERE task_id = ?\<close> with \<^verbatim>\<open>all\<close>. The statement is answered
  through the index of the primary key \<^verbatim>\<open>(task_id, path)\<close>, so the rows come in the order of
  their paths, compared byte by byte.
\<close>

definition select_outputs :: "output_row list \<Rightarrow> nat \<Rightarrow> output_row list" where
  "select_outputs tbl tid = sort_key out_path (filter (\<lambda>r. task_id r = tid) tbl)"

text \<open>The two \<^verbatim>\<open>INSERT\<close> statements; \<open>None\<close> when the primary key is taken and \<^verbatim>\<open>db.run\<close> throws.\<close>

definition insert_task_cache :: "cache_row list \<Rightarrow> cache_row \<Rightarrow> cache_row list option" where
  "insert_task_cache tbl r =
     (if cache_id r \<in> set (map cache_id tbl) then None else Some (tbl @ [r]))"

definition insert_task_output :: "output_row list \<Rightarrow> output_row \<Rightarrow> output_row list option" where
  "insert_task_output tbl r =
     (if (task_id r, out_path r) \<in> set (map (\<lambda>x. (task_id x, out_path x)) tbl) then None
      else Some (tbl @ [r]))"

text \<open>The row of \<^verbatim>\<open>task_output\<close> for one entry of the captured outputs (lines 171 to 181).\<close>

definition snapshot_row :: "env \<Rightarrow> nat \<Rightarrow> path \<times> bytes option \<Rightarrow> output_row" where
  "snapshot_row e tid kv =
     \<lparr>task_id = tid, out_path = fst kv, out_hash = map_option (sha256 e) (snd kv),
      out_content = snd kv\<rparr>"

text \<open>The loop over \<^verbatim>\<open>Object.entries(outputs)\<close>: it stops at the first insertion that throws.\<close>

fun insert_outputs ::
  "env \<Rightarrow> nat \<Rightarrow> (path \<times> bytes option) list \<Rightarrow> output_row list \<Rightarrow> outcome \<times> output_row list" where
  "insert_outputs e tid [] tbl = (Returned, tbl)"
| "insert_outputs e tid (kv # rest) tbl =
     (case insert_task_output tbl (snapshot_row e tid kv) of
        None \<Rightarrow> (Threw ConstraintFailed, tbl)
      | Some tbl' \<Rightarrow> insert_outputs e tid rest tbl')"

text \<open>\<^verbatim>\<open>resetDatabase\<close>\<close>

definition resetDatabase :: "world \<Rightarrow> world" where
  "resetDatabase w = log DatabaseReset (w\<lparr>task_cache := [], task_output := []\<rparr>)"

section \<open>Restoring the outputs of a record\<close>

definition getMaybeFileBytes :: "fs \<Rightarrow> path \<Rightarrow> bytes option" where
  "getMaybeFileBytes tree p = read_bytes tree p"

definition getMaybeFileHash :: "env \<Rightarrow> bytes option \<Rightarrow> string option" where
  "getMaybeFileHash e b = (case b of None \<Rightarrow> None | Some x \<Rightarrow> Some (sha256 e x))"

text \<open>
  The loop of \<^verbatim>\<open>restoreFromCache\<close>. A failing \<^verbatim>\<open>unlinkSync\<close> is caught and warned about;
  \<^verbatim>\<open>Bun.write\<close> is awaited outside any \<^verbatim>\<open>try\<close>, so its rejection leaves the loop.
\<close>

fun restore_rows :: "env \<Rightarrow> output_row list \<Rightarrow> world \<Rightarrow> outcome \<times> world" where
  "restore_rows e [] w = (Returned, w)"
| "restore_rows e (r # rs) w =
     (case (out_hash r, out_content r) of
        (Some h, Some content) \<Rightarrow>
          (if getMaybeFileHash e (getMaybeFileBytes (files w) (out_path r)) = Some h
           then restore_rows e rs (log (Skipping (out_path r)) w)
           else
             (case bun_write (files w) (out_path r) content of
                None \<Rightarrow> (Threw (WriteFailed (out_path r)), log (Writing (out_path r)) w)
              | Some tree \<Rightarrow> restore_rows e rs ((log (Writing (out_path r)) w)\<lparr>files := tree\<rparr>)))
      | _ \<Rightarrow>
          (case unlinkSync (files w) (out_path r) of
             Some tree \<Rightarrow> restore_rows e rs ((log (Clearing (out_path r)) w)\<lparr>files := tree\<rparr>)
           | None \<Rightarrow>
               restore_rows e rs (log (WarnDelete (out_path r)) (log (Clearing (out_path r)) w))))"

definition restoreFromCache :: "env \<Rightarrow> nat \<Rightarrow> world \<Rightarrow> outcome \<times> world" where
  "restoreFromCache e tid w =
     (let rows = select_outputs (task_output w) tid
      in restore_rows e rows (log (RestoringFiles (length rows)) (log (RestoringTask tid) w)))"

section \<open>Running a task\<close>

text \<open>
  Lines 157 to 183: the record is inserted, then the outputs are captured, then one row is
  inserted for each of them. Every statement is committed on its own. An exception of
  \<^verbatim>\<open>prepareOutputs\<close> leaves the function after its warnings.
\<close>

definition persist :: "env \<Rightarrow> string \<Rightarrow> task \<Rightarrow> string \<Rightarrow> string \<Rightarrow> world \<Rightarrow> outcome \<times> world" where
  "persist e name t fp out w =
     (let taskId = uuid_counter w;
          w1 = w\<lparr>uuid_counter := Suc taskId\<rparr>
      in case insert_task_cache (task_cache w1)
              \<lparr>cache_id = taskId, task_name = name, cache_inputs = fp, cache_stdout = out\<rparr> of
           None \<Rightarrow> (Threw ConstraintFailed, w1)
         | Some tc \<Rightarrow>
             (let r = prepareOutputs e t (files w1);
                  w2 = w1\<lparr>task_cache := tc, console := console w1 @ fst (snd r)\<rparr>
              in case snd (snd r) of
                   Threw err \<Rightarrow> (Threw err, w2)
                 | Returned \<Rightarrow>
                     (let res = insert_outputs e taskId (own_entries (fst r)) (task_output w2)
                      in (fst res, w2\<lparr>task_output := snd res\<rparr>))))"

text \<open>Lines 130 to 186 of \<^verbatim>\<open>runTask\<close>: what follows the dependencies.\<close>

definition runOwn :: "env \<Rightarrow> string \<Rightarrow> task \<Rightarrow> world \<Rightarrow> outcome \<times> world" where
  "runOwn e script_name t w =
     (let h = hashInputs e t (files w);
          inputsHash = fst h;
          w1 = w\<lparr>console := console w @ snd h\<rparr>
      in case select_cached (task_cache w1) script_name inputsHash of
           Some cachedTask \<Rightarrow>
             (case restoreFromCache e (cache_id cachedTask) (log (CacheHit script_name) w1) of
                (Threw err, w2) \<Rightarrow> (Threw err, w2)
              | (Returned, w2) \<Rightarrow>
                  (Returned, log (Stdout (cache_stdout cachedTask))
                               (log (OutputFromCache script_name) w2)))
         | None \<Rightarrow>
             (let w2 = log (CommandLine (command t)) (log (Starting script_name) w1)
              in case shell e (command t) (files w2) of
                   (None, tree) \<Rightarrow> (Threw (CommandFailed (command t)), w2\<lparr>files := tree\<rparr>)
                 | (Some out, tree) \<Rightarrow>
                     (if (case cache t of None \<Rightarrow> True | Some b \<Rightarrow> b)
                      then
                        (case persist e script_name t inputsHash out (w2\<lparr>files := tree\<rparr>) of
                           (Threw err, w3) \<Rightarrow> (Threw err, w3)
                         | (Returned, w3) \<Rightarrow> (Returned, log (Finished script_name) w3))
                      else (Returned, log (Finished script_name) (w2\<lparr>files := tree\<rparr>)))))"

text \<open>
  The same lines when \<^verbatim>\<open>task\<close> is a member of \<^verbatim>\<open>Object.prototype\<close>: \<^verbatim>\<open>task.inputs\<close> and
  \<^verbatim>\<open>task.command\<close> are \<^verbatim>\<open>undefined\<close>, so nothing is read and the fingerprint is
  \<^const>\<open>json_fingerprint_undefined\<close>; line 152 prints \<^verbatim>\<open>> undefined\<close>, and \<^verbatim>\<open>$\<close> throws for the
  value \<^verbatim>\<open>{ raw: undefined }\<close> before it runs anything.
\<close>

definition runInherited :: "env \<Rightarrow> string \<Rightarrow> world \<Rightarrow> outcome \<times> world" where
  "runInherited e script_name w =
     (case select_cached (task_cache w) script_name json_fingerprint_undefined of
        Some cachedTask \<Rightarrow>
          (case restoreFromCache e (cache_id cachedTask) (log (CacheHit script_name) w) of
             (Threw err, w2) \<Rightarrow> (Threw err, w2)
           | (Returned, w2) \<Rightarrow>
               (Returned, log (Stdout (cache_stdout cachedTask))
                            (log (OutputFromCache script_name) w2)))
      | None \<Rightarrow>
          (Threw InvalidShellValue,
           log (CommandLine ''undefined'') (log (Starting script_name) w)))"

text \<open>
  \<^verbatim>\<open>runTask\<close> calls itself for every dependency and nothing bounds the depth: the first
  argument is the depth still allowed, and \<open>None\<close> says it was used up. When \<^verbatim>\<open>task\<close> is
  \<^verbatim>\<open>undefined\<close>, reading \<^verbatim>\<open>task.depends_on\<close> throws; a member of \<^verbatim>\<open>Object.prototype\<close> has no
  property \<^verbatim>\<open>depends_on\<close>.
\<close>

fun runTask :: "nat \<Rightarrow> env \<Rightarrow> scripts \<Rightarrow> string \<Rightarrow> world \<Rightarrow> (outcome \<times> world) option"
and runDeps :: "nat \<Rightarrow> env \<Rightarrow> scripts \<Rightarrow> string list \<Rightarrow> world \<Rightarrow> (outcome \<times> world) option" where
  "runTask 0 e ss script_name w = None"
| "runTask (Suc n) e ss script_name w =
     (case get_script ss script_name of
        Undefined \<Rightarrow> Some (Threw (UnknownTask script_name), w)
      | Inherited \<Rightarrow> Some (runInherited e script_name w)
      | Own t \<Rightarrow>
          (case runDeps n e ss (case depends_on t of None \<Rightarrow> [] | Some ds \<Rightarrow> ds) w of
             None \<Rightarrow> None
           | Some (Threw err, w1) \<Rightarrow> Some (Threw err, w1)
           | Some (Returned, w1) \<Rightarrow> Some (runOwn e script_name t w1)))"
| "runDeps n e ss [] w = Some (Returned, w)"
| "runDeps n e ss (dependency # ds) w =
     (case runTask n e ss dependency w of
        None \<Rightarrow> None
      | Some (Threw err, w1) \<Rightarrow> Some (Threw err, w1)
      | Some (Returned, w1) \<Rightarrow> runDeps n e ss ds w1)"

section \<open>The command line\<close>

fun join_comma :: "string list \<Rightarrow> string" where
  "join_comma [] = []"
| "join_comma [x] = x"
| "join_comma (x # xs) = x @ '', '' @ join_comma xs"

definition usage_entry :: "string \<times> task \<Rightarrow> event" where
  "usage_entry kv =
     (let deps = (case depends_on (snd kv) of None \<Rightarrow> [] | Some ds \<Rightarrow> join_comma ds)
      in if deps \<noteq> [] then UsageEntryDeps (fst kv) deps else UsageEntry (fst kv))"

definition usage :: "scripts \<Rightarrow> world \<Rightarrow> world" where
  "usage ss w =
     w\<lparr>console := console w @ [UsageHeader, UsageAvailable] @ map usage_entry (own_entries ss)\<rparr>"

text \<open>
  Lines 194 to 218; the result is the exit status of the process. An exception that nothing
  catches ends the process with status 1.
\<close>

definition main :: "nat \<Rightarrow> env \<Rightarrow> scripts \<Rightarrow> string list \<Rightarrow> world \<Rightarrow> (nat \<times> world) option" where
  "main n e ss args w =
     (if length args < 1 then Some (1, usage ss (log LoadingTasks w))
      else
        (let script_name = hd args
         in if script_name = ''reset'' then Some (0, resetDatabase w)
            else
              (let w1 = log LoadingTasks w
               in if get_script ss script_name = Undefined
                  then Some (1, usage ss (log (ScriptNotFound script_name) w1))
                  else
                    (case runTask n e ss script_name w1 of
                       None \<Rightarrow> None
                     | Some (Threw err, w2) \<Rightarrow> Some (1, w2)
                     | Some (Returned, w2) \<Rightarrow>
                         (case sqlite_dump e (task_cache w2) (task_output w2) (files w2) of
                            None \<Rightarrow> Some (1, w2)
                          | Some tree \<Rightarrow> Some (0, w2\<lparr>files := tree\<rparr>))))))"

section \<open>Notions used in the properties\<close>

text \<open>How often the command of a task was launched: line 151 is printed right before it.\<close>

definition launches :: "string \<Rightarrow> event list \<Rightarrow> nat" where
  "launches name evs = length (filter (\<lambda>ev. ev = Starting name) evs)"

text \<open>
  The tasks that were processed, in order: each call of \<^verbatim>\<open>runTask\<close> that gets past its
  dependencies prints either line 144 or line 151.
\<close>

definition processed :: "event list \<Rightarrow> string list" where
  "processed evs =
     List.map_filter
       (\<lambda>ev. case ev of CacheHit name \<Rightarrow> Some name | Starting name \<Rightarrow> Some name | _ \<Rightarrow> None) evs"

text \<open>The paths that a restoration tried to delete (line 234) and to write (line 248).\<close>

definition deletions :: "event list \<Rightarrow> path list" where
  "deletions evs = List.map_filter (\<lambda>ev. case ev of Clearing p \<Rightarrow> Some p | _ \<Rightarrow> None) evs"

definition writes :: "event list \<Rightarrow> path list" where
  "writes evs = List.map_filter (\<lambda>ev. case ev of Writing p \<Rightarrow> Some p | _ \<Rightarrow> None) evs"

text \<open>
  The calls of \<^verbatim>\<open>runTask\<close> that a call makes, itself last: the dependency lists unfolded to
  the given depth, with every repetition.
\<close>

fun visits :: "nat \<Rightarrow> scripts \<Rightarrow> string \<Rightarrow> string list"
and visits_deps :: "nat \<Rightarrow> scripts \<Rightarrow> string list \<Rightarrow> string list" where
  "visits 0 ss name = []"
| "visits (Suc n) ss name =
     (case get_script ss name of
        Undefined \<Rightarrow> []
      | Inherited \<Rightarrow> [name]
      | Own t \<Rightarrow> visits_deps n ss (case depends_on t of None \<Rightarrow> [] | Some ds \<Rightarrow> ds) @ [name])"
| "visits_deps n ss [] = []"
| "visits_deps n ss (d # ds) = visits n ss d @ visits_deps n ss ds"

text \<open>
  What the database and the program guarantee of the rows of \<^verbatim>\<open>task_output\<close>: the primary
  key, and the digest stored with a content.
\<close>

definition primary_key_ok :: "output_row list \<Rightarrow> bool" where
  "primary_key_ok tbl = distinct (map (\<lambda>r. (task_id r, out_path r)) tbl)"

definition digests_ok :: "env \<Rightarrow> output_row list \<Rightarrow> bool" where
  "digests_ok e tbl = list_all (\<lambda>r. out_hash r = map_option (sha256 e) (out_content r)) tbl"

text \<open>No row carries an identifier that \<^verbatim>\<open>randomUUIDv7()\<close> has yet to return.\<close>

definition ids_fresh :: "world \<Rightarrow> bool" where
  "ids_fresh w =
     (list_all (\<lambda>r. cache_id r < uuid_counter w) (task_cache w)
      \<and> list_all (\<lambda>r. task_id r < uuid_counter w) (task_output w))"

text \<open>
  The statements of \<^const>\<open>persist\<close> are committed one by one. This is the store once the
  first \<open>k\<close> of them are: what another reader, or the next run after the process was
  killed there, finds.
\<close>

definition persist_prefix ::
  "nat \<Rightarrow> env \<Rightarrow> string \<Rightarrow> task \<Rightarrow> string \<Rightarrow> string \<Rightarrow> world \<Rightarrow> world" where
  "persist_prefix k e name t fp out w =
     (let taskId = uuid_counter w;
          w1 = w\<lparr>uuid_counter := Suc taskId\<rparr>
      in if k = 0 then w1
         else
           (case insert_task_cache (task_cache w1)
                   \<lparr>cache_id = taskId, task_name = name, cache_inputs = fp, cache_stdout = out\<rparr> of
              None \<Rightarrow> w1
            | Some tc \<Rightarrow>
                (let r = prepareOutputs e t (files w1);
                     w2 = w1\<lparr>task_cache := tc, console := console w1 @ fst (snd r)\<rparr>
                 in case snd (snd r) of
                      Threw err \<Rightarrow> w2
                    | Returned \<Rightarrow>
                        (let res = insert_outputs e taskId (take (k - 1) (own_entries (fst r)))
                                     (task_output w2)
                         in w2\<lparr>task_output := snd res\<rparr>))))"

text \<open>
  The comparator is a linear order on a set of paths: of two of them one is not after the
  other, it answers 0 for equal paths only, and it is transitive.
\<close>

definition linear_compare :: "(string \<Rightarrow> string \<Rightarrow> int) \<Rightarrow> string set \<Rightarrow> bool" where
  "linear_compare cmp S =
     ((\<forall>a \<in> S. \<forall>b \<in> S. cmp a b \<le> 0 \<or> cmp b a \<le> 0)
      \<and> (\<forall>a \<in> S. \<forall>b \<in> S. cmp a b \<le> 0 \<longrightarrow> cmp b a \<le> 0 \<longrightarrow> a = b)
      \<and> (\<forall>a \<in> S. \<forall>b \<in> S. \<forall>c \<in> S. cmp a b \<le> 0 \<longrightarrow> cmp b c \<le> 0 \<longrightarrow> cmp a c \<le> 0))"


section \<open>A platform and tasks to run the definitions on\<close>

definition demo_compare :: "string \<Rightarrow> string \<Rightarrow> int" where
  "demo_compare a b = (if a < b then - 1 else if a = b then 0 else 1)"

fun demo_glob :: "string \<Rightarrow> path \<Rightarrow> bool" where
  "demo_glob [] s = (s = [])"
| "demo_glob (p # ps) [] = (p = CHR ''*'' \<and> demo_glob ps [])"
| "demo_glob (p # ps) (c # cs) =
     (if p = CHR ''*'' then demo_glob ps (c # cs) \<or> (c \<noteq> CHR ''/'' \<and> demo_glob (p # ps) cs)
      else p = c \<and> demo_glob ps cs)"

definition demo_shell :: "string \<Rightarrow> fs \<Rightarrow> string option \<times> fs" where
  "demo_shell cmd tree =
     (if cmd = ''echo hi > out.txt'' then (Some [], AList.update ''out.txt'' (File ''hi'') tree)
      else if cmd = ''false'' then (None, tree)
      else (Some cmd, tree))"

text \<open>
  Of the names that an array decides on, the read-only ones and, of the canonical numeric
  strings, the decimal numerals are enough here.
\<close>

definition demo_inherited :: "bytes \<Rightarrow> string \<Rightarrow> assignment" where
  "demo_inherited b k =
     (if k \<in> set [''length'', ''byteLength'', ''byteOffset'', ''buffer'', ''BYTES_PER_ELEMENT'']
      then Rejects
      else if k \<noteq> [] \<and> list_all is_digit k \<and> (hd k \<noteq> CHR ''0'' \<or> k = ''0'')
               \<and> length b \<le> digits_value k
      then Swallows
      else Creates)"

definition demo_env :: env where
  "demo_env =
     \<lparr>sha256 = (\<lambda>b. ''sha256-'' @ b), text_decode = (\<lambda>b. b), glob_match = demo_glob,
      localeCompare = demo_compare, shell = demo_shell,
      sqlite_dump = (\<lambda>tc tout tree. Some tree), inherited_assignment = demo_inherited\<rparr>"

definition empty_world :: world where
  "empty_world = \<lparr>files = [], task_cache = [], task_output = [], console = [], uuid_counter = 0\<rparr>"

definition demo_task :: "string \<Rightarrow> task" where
  "demo_task cmd = \<lparr>command = cmd, depends_on = None, inputs = None, outputs = None, cache = None\<rparr>"

definition demo_scripts :: scripts where
  "demo_scripts =
     [(''all'', (demo_task ''true'')\<lparr>depends_on := Some [''build'', ''deploy'']\<rparr>),
      (''build'', (demo_task ''echo hi > out.txt'')\<lparr>outputs := Some [''out.txt'']\<rparr>)]"

text \<open>The world after the first run of \<open>build\<close> in an empty directory with an empty cache.\<close>

definition built_world :: world where
  "built_world =
     \<lparr>files = [(''out.txt'', File ''hi'')],
      task_cache =
        [\<lparr>cache_id = 0, task_name = ''build'',
          cache_inputs = json_fingerprint ''echo hi > out.txt'' [], cache_stdout = []\<rparr>],
      task_output =
        [\<lparr>task_id = 0, out_path = ''out.txt'', out_hash = Some ''sha256-hi'',
          out_content = Some ''hi''\<rparr>],
      console = [Starting ''build'', CommandLine ''echo hi > out.txt'', Finished ''build''],
      uuid_counter = 1\<rparr>"

text \<open>A diamond: \<open>D\<close> needs \<open>B\<close> and \<open>C\<close>, which both need \<open>A\<close>.\<close>

definition diamond :: "bool option \<Rightarrow> scripts" where
  "diamond flag =
     [(''A'', (demo_task ''make a'')\<lparr>cache := flag\<rparr>),
      (''B'', (demo_task ''make b'')\<lparr>depends_on := Some [''A'']\<rparr>),
      (''C'', (demo_task ''make c'')\<lparr>depends_on := Some [''A'']\<rparr>),
      (''D'', (demo_task ''make d'')\<lparr>depends_on := Some [''B'', ''C'']\<rparr>)]"

text \<open>The three together, for the tables of a world.\<close>

definition store_ok :: "env \<Rightarrow> world \<Rightarrow> bool" where
  "store_ok e w =
     (primary_key_ok (task_output w) \<and> digests_ok e (task_output w) \<and> ids_fresh w)"

text \<open>
  The tree after \<open>build\<close> has run its command, before anything is persisted, and the same
  once \<^verbatim>\<open>out.txt\<close> has been removed again.
\<close>

definition ran_world :: world where
  "ran_world =
     \<lparr>files = [(''out.txt'', File ''hi'')], task_cache = [], task_output = [],
      console = [Starting ''build'', CommandLine ''echo hi > out.txt''], uuid_counter = 0\<rparr>"

definition build_task :: task where
  "build_task = (demo_task ''echo hi > out.txt'')\<lparr>outputs := Some [''out.txt'']\<rparr>"

text \<open>
  A record with two snapshots, and a working tree in which the path of the first one has
  become a directory and the second one is missing.
\<close>

definition two_outputs :: "output_row list" where
  "two_outputs =
     [\<lparr>task_id = 0, out_path = ''a'', out_hash = Some ''sha256-x'', out_content = Some ''x''\<rparr>,
      \<lparr>task_id = 0, out_path = ''b'', out_hash = Some ''sha256-y'', out_content = Some ''y''\<rparr>]"

definition blocked_world :: world where
  "blocked_world =
     \<lparr>files = [(''a'', Dir)], task_cache = [], task_output = two_outputs, console = [],
      uuid_counter = 1\<rparr>"

text \<open>The list that the loop of lines 124 to 128 runs over.\<close>

definition deps_of :: "task \<Rightarrow> string list" where
  "deps_of t = (case depends_on t of None \<Rightarrow> [] | Some ds \<Rightarrow> ds)"

text \<open>A task whose caching is switched off.\<close>

definition dev_scripts :: scripts where
  "dev_scripts = [(''dev'', (demo_task ''make dev'')\<lparr>cache := Some False\<rparr>)]"

text \<open>What the loop of the restoration prints for a snapshot that needs no change.\<close>

definition settled_events :: "output_row \<Rightarrow> event list" where
  "settled_events r =
     (case (out_hash r, out_content r) of
        (Some h, Some content) \<Rightarrow> [Skipping (out_path r)]
      | _ \<Rightarrow> [Clearing (out_path r), WarnDelete (out_path r)])"

text \<open>
  A snapshot needs no change in a working tree: the file there has the stored digest, or,
  for a recorded absence, there is nothing that \<^verbatim>\<open>unlinkSync\<close> can delete.
\<close>

definition settled :: "env \<Rightarrow> fs \<Rightarrow> output_row \<Rightarrow> bool" where
  "settled e tree r =
     (case (out_hash r, out_content r) of
        (Some h, Some content) \<Rightarrow>
          getMaybeFileHash e (getMaybeFileBytes tree (out_path r)) = Some h
      | _ \<Rightarrow> unlinkSync tree (out_path r) = None)"

text \<open>The paths that the patterns of \<^verbatim>\<open>task.outputs\<close> resolve to, as \<^verbatim>\<open>prepareOutputs\<close> visits them.\<close>

definition output_paths :: "env \<Rightarrow> task \<Rightarrow> fs \<Rightarrow> path list" where
  "output_paths e t tree =
     concat (map (resolve e tree) (case outputs t of None \<Rightarrow> [] | Some ps \<Rightarrow> ps))"

text \<open>
  A task whose only output pattern is a glob, a tree where the glob matches a file that the
  process may not read, and the same tree with the file readable.
\<close>

definition locked_task :: task where
  "locked_task = (demo_task ''true'')\<lparr>outputs := Some [''dist/*'']\<rparr>"

definition locked_world :: world where
  "locked_world =
     \<lparr>files = [(''dist/app.js'', Unreadable ''secret'')], task_cache = [], task_output = [],
      console = [], uuid_counter = 0\<rparr>"

definition readable_world :: world where
  "readable_world =
     \<lparr>files = [(''dist/app.js'', File ''js'')], task_cache = [], task_output = [],
      console = [], uuid_counter = 0\<rparr>"

text \<open>The paths that the patterns of \<^verbatim>\<open>task.inputs\<close> resolve to, as \<^verbatim>\<open>hashInputs\<close> visits them.\<close>

definition input_paths :: "env \<Rightarrow> task \<Rightarrow> fs \<Rightarrow> path list" where
  "input_paths e t tree =
     concat (map (resolve e tree) (case inputs t of None \<Rightarrow> [] | Some ps \<Rightarrow> ps))"

text \<open>A tree with two text files and a third file, listed in no particular order.\<close>

definition two_inputs :: fs where
  "two_inputs = [(''b.txt'', File ''B''), (''a.txt'', File ''A''), (''notes.md'', File ''N'')]"




text \<open>A task whose inputs are the text files of the directory.\<close>

definition text_task :: task where
  "text_task = (demo_task ''make'')\<lparr>inputs := Some [''*.txt'']\<rparr>"

text \<open>
  A comparison that, as \<^verbatim>\<open>localeCompare\<close> does, answers 0 for canonically equivalent strings:
  the letter e with an acute accent is the same letter whether it is written as one code
  point (the bytes C3 A9) or as the letter e followed by the combining accent (the bytes
  65 CC 81). The strings are compared with every such letter spelt the second way. The two
  paths are distinct names of a working tree that holds a file under each.
\<close>

fun decompose :: "string \<Rightarrow> string" where
  "decompose [] = []"
| "decompose [c] = [c]"
| "decompose (c # d # cs) =
     (if c = CHR 0xC3 \<and> d = CHR 0xA9 then CHR 0x65 # CHR 0xCC # CHR 0x81 # decompose cs
      else c # decompose (d # cs))"

definition canonical_compare :: "string \<Rightarrow> string \<Rightarrow> int" where
  "canonical_compare a b = demo_compare (decompose a) (decompose b)"

definition canonical_env :: env where
  "canonical_env = demo_env\<lparr>localeCompare := canonical_compare\<rparr>"

definition composed_path :: path where
  "composed_path = [CHR 0xC3, CHR 0xA9, CHR ''.'', CHR ''t'', CHR ''x'', CHR ''t'']"

definition decomposed_path :: path where
  "decomposed_path = [CHR 0x65, CHR 0xCC, CHR 0x81, CHR ''.'', CHR ''t'', CHR ''x'', CHR ''t'']"

definition accent_tree :: fs where
  "accent_tree = [(composed_path, File ''A''), (decomposed_path, File ''B'')]"

named_theorems run_defs

lemmas model_defs [run_defs] =
  runOwn_def hashInputs_def collect_inputs_def sorted_files_def fromEntries_def
  sort_by_def own_entries_def json_fingerprint_def json_quote_def json_escape_def hex_digit_def
  is_array_index_def is_digit_def digits_value_def obj_set_def out_set_def get_script_def
  object_prototype_members_def json_fingerprint_undefined_def runInherited_def resolve_def scan_def read_text_def
  read_bytes_def unlinkSync_def bun_write_def is_regular_def hash_file_def capture_file_def
  prepareOutputs_def log_def select_cached_def select_outputs_def insert_task_cache_def
  insert_task_output_def snapshot_row_def resetDatabase_def getMaybeFileBytes_def
  getMaybeFileHash_def restoreFromCache_def persist_def usage_def usage_entry_def main_def
  persist_prefix_def store_ok_def primary_key_ok_def digests_ok_def ids_fresh_def launches_def processed_def deletions_def writes_def List.map_filter_def
  demo_env_def demo_inherited_def demo_shell_def demo_compare_def empty_world_def demo_task_def ran_world_def
  build_task_def two_outputs_def blocked_world_def deps_of_def settled_events_def settled_def
  output_paths_def locked_task_def locked_world_def readable_world_def input_paths_def
  two_inputs_def text_task_def canonical_compare_def canonical_env_def composed_path_def
  decomposed_path_def accent_tree_def Let_def

section \<open>Events of a run\<close>

lemma launches_append: "launches name (xs @ ys) = launches name xs + launches name ys"
  by (simp add: launches_def)

lemma launches_simps:
  "launches name [] = 0"
  "launches name (ev # evs) = (if ev = Starting name then 1 else 0) + launches name evs"
  by (simp_all add: launches_def)

lemma hash_file_warnings:
  "set (snd (foldl (hash_file e tree) acc ps)) \<subseteq> set (snd acc) \<union> range WarnInput"
proof (induction ps arbitrary: acc)
  case Nil
  then show ?case by simp
next
  case (Cons p ps)
  have "set (snd (hash_file e tree acc p)) \<subseteq> set (snd acc) \<union> range WarnInput"
    by (auto simp: hash_file_def split: option.splits)
  with Cons.IH [of "hash_file e tree acc p"] show ?case by auto
qed

lemma hashInputs_warnings: "set (snd (hashInputs e t tree)) \<subseteq> range WarnInput"
  using hash_file_warnings [of e tree "([], [])"]
  by (simp add: hashInputs_def collect_inputs_def Let_def)



section \<open>Unknown tasks\<close>

lemma get_script_Own: "map_of ss name = Some t \<Longrightarrow> get_script ss name = Own t"
  by (simp add: get_script_def)

lemma get_script_Undefined:
  "(get_script ss name = Undefined)
     = (map_of ss name = None \<and> name \<notin> set object_prototype_members)"
  by (simp add: get_script_def split: option.splits)

lemma get_script_Inherited:
  "(get_script ss name = Inherited)
     = (map_of ss name = None \<and> name \<in> set object_prototype_members)"
  by (simp add: get_script_def split: option.splits)

text \<open>
  A name that is found neither in the graph nor in \<^verbatim>\<open>Object.prototype\<close> makes the run fail
  at once: \<^verbatim>\<open>runTask\<close> throws on its first line and leaves the world as it found it (no
  fingerprint, no lookup, no command, nothing printed), and the command line refuses such
  a requested name with status 1 and touches neither the working tree nor the tables.
\<close>

lemma undefined_task_throws:
  assumes "get_script ss name = Undefined"
  shows "runTask (Suc n) e ss name w = Some (Threw (UnknownTask name), w)"
    and "name \<noteq> ''reset'' \<Longrightarrow>
         main n e ss [name] w =
           Some (1, usage ss (log (ScriptNotFound name) (log LoadingTasks w)))"
    and "files (usage ss (log (ScriptNotFound name) (log LoadingTasks w))) = files w"
    and "task_cache (usage ss (log (ScriptNotFound name) (log LoadingTasks w))) = task_cache w"
    and "task_output (usage ss (log (ScriptNotFound name) (log LoadingTasks w))) = task_output w"
  using assms by (simp_all add: main_def usage_def log_def Let_def)

text \<open>
  An exception of a dependency, at whatever depth, ends every call of \<^verbatim>\<open>runTask\<close> above it
  in the world where it was thrown: the dependencies after it, the own fingerprint and the
  own command are not reached.
\<close>

lemma thrown_error_propagates:
  "get_script ss parent = Own t \<Longrightarrow> runDeps n e ss (deps_of t) w = Some (Threw err, w1) \<Longrightarrow>
   runTask (Suc n) e ss parent w = Some (Threw err, w1)"
  "runDeps n e ss pre w = Some (Returned, w0) \<Longrightarrow> runTask n e ss d w0 = Some (Threw err, w1) \<Longrightarrow>
   runDeps n e ss (pre @ d # post) w = Some (Threw err, w1)"
proof -
  show "runTask (Suc n) e ss parent w = Some (Threw err, w1)"
    if "get_script ss parent = Own t" "runDeps n e ss (deps_of t) w = Some (Threw err, w1)"
    using that by (simp add: deps_of_def)
  show "runDeps n e ss (pre @ d # post) w = Some (Threw err, w1)"
    if "runDeps n e ss pre w = Some (Returned, w0)" "runTask n e ss d w0 = Some (Threw err, w1)"
    using that
  proof (induction pre arbitrary: w)
    case Nil
    then show ?case by simp
  next
    case (Cons x xs)
    then show ?case
      by (auto split: option.splits prod.splits outcome.splits)
  qed
qed

text \<open>
  A name that only \<^verbatim>\<open>Object.prototype\<close> has is not refused: unless the cache holds a record
  for it, the run gets as far as line 152 and fails there.
\<close>

lemma inherited_task_is_run:
  assumes "get_script ss name = Inherited"
    and "select_cached (task_cache w) name json_fingerprint_undefined = None"
  shows "runTask (Suc n) e ss name w
      = Some (Threw InvalidShellValue,
          w\<lparr>console := console w @ [Starting name, CommandLine ''undefined'']\<rparr>)"
    and "name \<noteq> ''reset'' \<Longrightarrow>
         main (Suc n) e ss [name] w
           = Some (1, w\<lparr>console := console w
                @ [LoadingTasks, Starting name, CommandLine ''undefined'']\<rparr>)"
  using assms by (simp_all add: main_def runInherited_def log_def Let_def)

lemma unknown_dependency_aborts:
  "runTask 2 demo_env demo_scripts ''all'' empty_world
     = Some (Threw (UnknownTask ''deploy''), built_world)"
  by (simp add: demo_scripts_def built_world_def run_defs numeral_2_eq_2)

text \<open>
  C7 at a failing input. No task of the graph is called \<^verbatim>\<open>toString\<close>, but
  \<^verbatim>\<open>scripts['toString']\<close> is the function that every object inherits. The test of line 210
  lets the name pass, \<^verbatim>\<open>runTask\<close> does not throw on its first lines: it computes a
  fingerprint, queries the cache, and prints lines 151 and 152. The run fails only when \<^verbatim>\<open>$\<close>
  is given no command, and not with the message for an unknown script. It is the same for
  a task that depends on such a name.
\<close>

theorem inherited_name_is_not_refused:
  "map_of demo_scripts ''toString'' = None
   \<and> get_script demo_scripts ''toString'' = Inherited
   \<and> main 1 demo_env demo_scripts [''toString''] empty_world
     = Some (1, empty_world\<lparr>console :=
         [LoadingTasks, Starting ''toString'', CommandLine ''undefined'']\<rparr>)
   \<and> runTask 1 demo_env demo_scripts ''toString'' empty_world
     = Some (Threw InvalidShellValue,
         empty_world\<lparr>console := [Starting ''toString'', CommandLine ''undefined'']\<rparr>)
   \<and> runTask 2 demo_env [(''site'', (demo_task ''true'')\<lparr>depends_on := Some [''toString'']\<rparr>)]
        ''site'' empty_world
     = Some (Threw InvalidShellValue,
         empty_world\<lparr>console := [Starting ''toString'', CommandLine ''undefined'']\<rparr>)
   \<and> main 1 demo_env demo_scripts [''deploy''] empty_world
     = Some (1, empty_world\<lparr>console :=
         [LoadingTasks, ScriptNotFound ''deploy'', UsageHeader, UsageAvailable,
          UsageEntryDeps ''all'' ''build, deploy'', UsageEntry ''build'']\<rparr>)"
  by (simp add: demo_scripts_def run_defs numeral_2_eq_2)

section \<open>Tasks that are not cached\<close>



section \<open>More on the events of a run\<close>

lemma processed_simps:
  "processed [] = []"
  "processed (CacheHit name # evs) = name # processed evs"
  "processed (Starting name # evs) = name # processed evs"
  "processed (WarnInput p # evs) = processed evs"
  "processed (WarnOutput p # evs) = processed evs"
  "processed (OutputFromCache name # evs) = processed evs"
  "processed (Stdout out # evs) = processed evs"
  "processed (CommandLine c # evs) = processed evs"
  "processed (Finished name # evs) = processed evs"
  "processed (RestoringTask tid # evs) = processed evs"
  "processed (RestoringFiles k # evs) = processed evs"
  "processed (Clearing p # evs) = processed evs"
  "processed (WarnDelete p # evs) = processed evs"
  "processed (Skipping p # evs) = processed evs"
  "processed (Writing p # evs) = processed evs"
  by (simp_all add: processed_def List.map_filter_simps)

lemma processed_append: "processed (xs @ ys) = processed xs @ processed ys"
  by (simp add: processed_def List.map_filter_def)

lemma processed_warnings:
  "set evs \<subseteq> range WarnInput \<union> range WarnOutput \<Longrightarrow> processed evs = []"
  by (induction evs) (auto simp: processed_simps)

lemma launches_warnings:
  "set evs \<subseteq> range WarnInput \<union> range WarnOutput \<Longrightarrow> launches name evs = 0"
  by (induction evs) (auto simp: launches_simps)

lemma restore_rows_frame:
  "task_cache (snd (restore_rows e rs w)) = task_cache w
   \<and> task_output (snd (restore_rows e rs w)) = task_output w
   \<and> uuid_counter (snd (restore_rows e rs w)) = uuid_counter w
   \<and> processed (console (snd (restore_rows e rs w))) = processed (console w)
   \<and> launches name (console (snd (restore_rows e rs w))) = launches name (console w)"
proof (induction rs arbitrary: w)
  case Nil
  then show ?case by simp
next
  case (Cons r rs)
  show ?case
    by (simp add: Cons.IH log_def processed_append processed_simps launches_append
        launches_simps split: option.splits prod.splits)
qed


lemma restoreFromCache_frame:
  "task_cache (snd (restoreFromCache e tid w)) = task_cache w
   \<and> task_output (snd (restoreFromCache e tid w)) = task_output w
   \<and> uuid_counter (snd (restoreFromCache e tid w)) = uuid_counter w
   \<and> processed (console (snd (restoreFromCache e tid w))) = processed (console w)
   \<and> launches name (console (snd (restoreFromCache e tid w))) = launches name (console w)"
  by (simp add: restoreFromCache_def Let_def restore_rows_frame log_def processed_append
      processed_simps launches_append launches_simps)

lemma capture_file_warnings:
  "set (snd (capture_file e tree po p)) \<subseteq> range WarnOutput"
  by (auto simp: capture_file_def split: option.splits)

lemma capture_files_warnings:
  "set (fst (snd (capture_files e tree ps acc))) \<subseteq> set (snd acc) \<union> range WarnOutput"
proof (induction ps arbitrary: acc)
  case Nil
  then show ?case by simp
next
  case (Cons p ps)
  obtain r warned where c: "capture_file e tree (fst acc) p = (r, warned)"
    by (cases "capture_file e tree (fst acc) p")
  have w: "set warned \<subseteq> range WarnOutput"
    using capture_file_warnings [of e tree "fst acc" p] c by simp
  show ?case
  proof (cases r)
    case None
    then show ?thesis
      using c w by auto
  next
    case (Some po)
    have "set (fst (snd (capture_files e tree ps (po, snd acc @ warned))))
        \<subseteq> set (snd acc @ warned) \<union> range WarnOutput"
      using Cons.IH [of "(po, snd acc @ warned)"] by simp
    then show ?thesis
      using c w Some by auto
  qed
qed

lemma prepareOutputs_warnings:
  "set (fst (snd (prepareOutputs e t tree))) \<subseteq> range WarnOutput"
  using capture_files_warnings [of e tree _ "((ObjectPrototype, []), [])"]
  by (simp add: prepareOutputs_def)

lemma persist_console:
  "console (snd (persist e name t fp out w)) = console w
   \<or> console (snd (persist e name t fp out w))
       = console w @ fst (snd (prepareOutputs e t (files w)))"
  by (simp add: persist_def Let_def split: option.splits outcome.splits)

lemma persist_quiet:
  "processed (console (snd (persist e name t fp out w))) = processed (console w)
   \<and> launches name' (console (snd (persist e name t fp out w))) = launches name' (console w)"
proof -
  have "set (fst (snd (prepareOutputs e t (files w)))) \<subseteq> range WarnInput \<union> range WarnOutput"
    using prepareOutputs_warnings [of e t "files w"] by blast
  then have "processed (fst (snd (prepareOutputs e t (files w)))) = []"
    "launches name' (fst (snd (prepareOutputs e t (files w)))) = 0"
    by (simp_all add: processed_warnings launches_warnings)
  then show ?thesis
    using persist_console [of e name t fp out w]
    by (auto simp: processed_append launches_append)
qed

lemma hashInputs_quiet:
  "processed (snd (hashInputs e t tree)) = []"
  "launches name (snd (hashInputs e t tree)) = 0"
proof -
  have "set (snd (hashInputs e t tree)) \<subseteq> range WarnInput \<union> range WarnOutput"
    using hashInputs_warnings [of e t tree] by blast
  then show "processed (snd (hashInputs e t tree)) = []"
    "launches name (snd (hashInputs e t tree)) = 0"
    by (simp_all add: processed_warnings launches_warnings)
qed

lemma runOwn_processed:
  "processed (console (snd (runOwn e name t w))) = processed (console w) @ [name]"
proof -
  let ?h = "hashInputs e t (files w)"
  let ?w1 = "w\<lparr>console := console w @ snd ?h\<rparr>"
  have p1: "processed (console ?w1) = processed (console w)"
    by (simp add: processed_append hashInputs_quiet)
  show ?thesis
  proof (cases "select_cached (task_cache ?w1) name (fst ?h)")
    case (Some row)
    have "processed (console (snd (restoreFromCache e (cache_id row) (log (CacheHit name) ?w1))))
        = processed (console w) @ [name]"
      using restoreFromCache_frame [of e "cache_id row" "log (CacheHit name) ?w1"]
      by (simp add: log_def processed_append processed_simps hashInputs_quiet)
    with Some show ?thesis
      by (auto simp: runOwn_def Let_def log_def processed_append processed_simps
          split: prod.splits outcome.splits)
  next
    case None
    let ?w2 = "log (CommandLine (command t)) (log (Starting name) ?w1)"
    have p2: "processed (console ?w2) = processed (console w) @ [name]"
      by (simp add: log_def processed_append processed_simps hashInputs_quiet)
    have p3: "processed (console (snd (persist e name t (fst ?h) out (?w2\<lparr>files := tree\<rparr>))))
        = processed (console w) @ [name]" for out tree
      using persist_quiet [of e name t "fst ?h" out "?w2\<lparr>files := tree\<rparr>"] p2
      by simp
    have p4: "processed (console w3) = processed (console w) @ [name]"
      if "persist e name t (fst ?h) out (?w2\<lparr>files := tree\<rparr>) = (r, w3)" for out tree r w3
      using p3 [of out tree] that by simp
    from None show ?thesis
      using p2 p4
      by (auto simp: runOwn_def Let_def log_def processed_append processed_simps
          split: prod.splits outcome.splits option.splits)
  qed
qed

lemma runInherited_processed:
  "processed (console (snd (runInherited e name w))) = processed (console w) @ [name]"
proof (cases "select_cached (task_cache w) name json_fingerprint_undefined")
  case None
  then show ?thesis
    by (simp add: runInherited_def log_def processed_append processed_simps)
next
  case (Some row)
  have "processed (console (snd (restoreFromCache e (cache_id row) (log (CacheHit name) w))))
      = processed (console w) @ [name]"
    using restoreFromCache_frame [of e "cache_id row" "log (CacheHit name) w"]
    by (simp add: log_def processed_append processed_simps)
  with Some show ?thesis
    by (auto simp: runInherited_def log_def processed_append processed_simps
        split: prod.splits outcome.splits)
qed

lemma run_processed:
  "(runTask n e ss name w = Some (Returned, w') \<longrightarrow>
      processed (console w') = processed (console w) @ visits n ss name)"
  "(runDeps n e ss ds w = Some (Returned, w') \<longrightarrow>
      processed (console w') = processed (console w) @ visits_deps n ss ds)"
proof (induction n e ss name w and n e ss ds w arbitrary: w' and w'
    rule: runTask_runDeps.induct)
  case (1 e ss script_name w)
  then show ?case by simp
next
  case (2 n e ss script_name w)
  show ?case
  proof (cases "get_script ss script_name")
    case Undefined
    then show ?thesis by simp
  next
    case Inherited
    show ?thesis
    proof
      assume run: "runTask (Suc n) e ss script_name w = Some (Returned, w')"
      then have "runInherited e script_name w = (Returned, w')"
        using Inherited by simp
      then have "processed (console w') = processed (console w) @ [script_name]"
        using runInherited_processed [of e script_name w] by simp
      then show "processed (console w') = processed (console w) @ visits (Suc n) ss script_name"
        using Inherited by simp
    qed
  next
    case (Own t)
    let ?ds = "case depends_on t of None \<Rightarrow> [] | Some ds \<Rightarrow> ds"
    show ?thesis
    proof
      assume run: "runTask (Suc n) e ss script_name w = Some (Returned, w')"
      then obtain w1 where deps: "runDeps n e ss ?ds w = Some (Returned, w1)"
        and own: "runOwn e script_name t w1 = (Returned, w')"
        using Own by (auto split: option.splits prod.splits outcome.splits)
      have "processed (console w1) = processed (console w) @ visits_deps n ss ?ds"
        using "2.IH" [OF Own, of w1] deps by simp
      moreover have "processed (console w') = processed (console w1) @ [script_name]"
        using runOwn_processed [of e script_name t w1] own by simp
      ultimately show "processed (console w') = processed (console w) @ visits (Suc n) ss script_name"
        using Own by simp
    qed
  qed
next
  case (3 n e ss w)
  then show ?case by simp
next
  case (4 n e ss dependency ds w)
  show ?case
  proof
    assume run: "runDeps n e ss (dependency # ds) w = Some (Returned, w')"
    then obtain w1 where first: "runTask n e ss dependency w = Some (Returned, w1)"
      and rest: "runDeps n e ss ds w1 = Some (Returned, w')"
      by (auto split: option.splits prod.splits outcome.splits)
    have "processed (console w1) = processed (console w) @ visits n ss dependency"
      using "4.IH"(1) [of w1] first by simp
    moreover have "processed (console w') = processed (console w1) @ visits_deps n ss ds"
      using "4.IH"(2) [OF first refl refl, of w'] rest by simp
    ultimately show "processed (console w') = processed (console w) @ visits_deps n ss (dependency # ds)"
      by simp
  qed
qed

section \<open>Repeated dependencies\<close>

text \<open>
  C6, as stated, fails. \<^verbatim>\<open>runTask\<close> keeps no record of the tasks it has finished: in the
  diamond, \<open>A\<close> is processed once below \<open>B\<close> and once more below \<open>C\<close>. With the default
  caching the second time is a cache hit (fingerprint, lookup and restoration again); with
  \<^verbatim>\<open>cache: false\<close> on \<open>A\<close> its command is launched twice in the one invocation.
\<close>

theorem diamond_dependency_processed_twice:
  "map_option (\<lambda>r. (fst r, console (snd r))) (runTask 3 demo_env (diamond None) ''D'' empty_world)
     = Some (Returned,
         [Starting ''A'', CommandLine ''make a'', Finished ''A'',
          Starting ''B'', CommandLine ''make b'', Finished ''B'',
          CacheHit ''A'', RestoringTask 0, RestoringFiles 0, OutputFromCache ''A'',
          Stdout ''make a'',
          Starting ''C'', CommandLine ''make c'', Finished ''C'',
          Starting ''D'', CommandLine ''make d'', Finished ''D''])
   \<and> map_option (\<lambda>r. (fst r, console (snd r)))
        (runTask 3 demo_env (diamond (Some False)) ''D'' empty_world)
     = Some (Returned,
         [Starting ''A'', CommandLine ''make a'', Finished ''A'',
          Starting ''B'', CommandLine ''make b'', Finished ''B'',
          Starting ''A'', CommandLine ''make a'', Finished ''A'',
          Starting ''C'', CommandLine ''make c'', Finished ''C'',
          Starting ''D'', CommandLine ''make d'', Finished ''D''])"
  by (simp add: diamond_def run_defs numeral_3_eq_3)

text \<open>
  C6, amended. A call of \<^verbatim>\<open>runTask\<close> that returns has processed one task for every call
  of \<^verbatim>\<open>runTask\<close> in the unfolding of the dependency lists, in that order and with every
  repetition: a task is processed once for each path that leads to it.
\<close>

theorem task_processed_once_per_visit:
  assumes "runTask n e ss name w = Some (Returned, w')"
  shows "processed (console w') = processed (console w) @ visits n ss name"
  using assms run_processed(1) by blast

theorem task_processed_once_per_visit_witness:
  "runTask 3 demo_env (diamond (Some False)) ''D'' empty_world
     = Some (Returned, snd (the (runTask 3 demo_env (diamond (Some False)) ''D'' empty_world)))
   \<and> processed (console (snd (the (runTask 3 demo_env (diamond (Some False)) ''D'' empty_world))))
     = [''A'', ''B'', ''A'', ''C'', ''D'']"
proof -
  let ?w' = "snd (the (runTask 3 demo_env (diamond (Some False)) ''D'' empty_world))"
  have h: "runTask 3 demo_env (diamond (Some False)) ''D'' empty_world = Some (Returned, ?w')"
    by (simp add: diamond_def run_defs numeral_3_eq_3)
  have v: "visits 3 (diamond (Some False)) ''D'' = [''A'', ''B'', ''A'', ''C'', ''D'']"
    by (simp add: diamond_def demo_task_def get_script_def numeral_3_eq_3)
  have c: "processed (console empty_world) = []"
    by (simp add: empty_world_def processed_simps)
  show ?thesis
    using task_processed_once_per_visit [OF h] h v c by simp
qed

section \<open>The rows that are inserted\<close>

lemma insert_outputs_rows:
  "\<exists>k \<le> length kvs. snd (insert_outputs e tid kvs tbl) = tbl @ map (snapshot_row e tid) (take k kvs)
      \<and> (fst (insert_outputs e tid kvs tbl) = Returned \<longrightarrow> k = length kvs)"
proof (induction kvs arbitrary: tbl)
  case Nil
  then show ?case by simp
next
  case (Cons kv kvs)
  show ?case
  proof (cases "insert_task_output tbl (snapshot_row e tid kv)")
    case None
    then show ?thesis by (intro exI [of _ 0]) simp
  next
    case (Some tbl')
    then have tbl': "tbl' = tbl @ [snapshot_row e tid kv]"
      by (simp add: insert_task_output_def split: if_splits)
    obtain k where k: "k \<le> length kvs"
      "snd (insert_outputs e tid kvs tbl') = tbl' @ map (snapshot_row e tid) (take k kvs)"
      "fst (insert_outputs e tid kvs tbl') = Returned \<longrightarrow> k = length kvs"
      using Cons.IH [of tbl'] by blast
    show ?thesis
      using Some k tbl' by (intro exI [of _ "Suc k"]) simp
  qed
qed

lemma insert_outputs_Returned:
  assumes "insert_outputs e tid kvs tbl = (Returned, tbl')"
  shows "tbl' = tbl @ map (snapshot_row e tid) kvs"
  using insert_outputs_rows [of kvs e tid tbl] assms by auto

lemma insert_outputs_primary_key:
  "primary_key_ok tbl \<Longrightarrow> primary_key_ok (snd (insert_outputs e tid kvs tbl))"
proof (induction kvs arbitrary: tbl)
  case Nil
  then show ?case by simp
next
  case (Cons kv kvs)
  show ?case
  proof (cases "insert_task_output tbl (snapshot_row e tid kv)")
    case None
    then show ?thesis using Cons.prems by simp
  next
    case (Some tbl')
    then have "primary_key_ok tbl'"
      using Cons.prems
      by (auto simp: insert_task_output_def primary_key_ok_def split: if_splits)
    then show ?thesis using Some Cons.IH [of tbl'] by simp
  qed
qed

lemma digests_ok_append:
  "digests_ok e (xs @ ys) = (digests_ok e xs \<and> digests_ok e ys)"
  by (simp add: digests_ok_def)

lemma digests_ok_snapshots: "digests_ok e (map (snapshot_row e tid) kvs)"
  by (induction kvs) (simp_all add: digests_ok_def snapshot_row_def)

lemma insert_outputs_digests:
  "digests_ok e tbl \<Longrightarrow> digests_ok e (snd (insert_outputs e tid kvs tbl))"
  using insert_outputs_rows [of kvs e tid tbl]
  by (auto simp: digests_ok_append digests_ok_snapshots)

lemma insert_outputs_ids:
  "list_all (\<lambda>r. task_id r < Suc tid) tbl \<Longrightarrow>
   list_all (\<lambda>r. task_id r < Suc tid) (snd (insert_outputs e tid kvs tbl))"
  using insert_outputs_rows [of kvs e tid tbl]
  by (auto simp: list_all_iff snapshot_row_def dest: in_set_takeD)

lemma list_all_less_Suc:
  "list_all (\<lambda>r. f r < (n::nat)) xs \<Longrightarrow> list_all (\<lambda>r. f r < Suc n) xs"
  by (auto simp: list_all_iff)

lemma persist_store_ok:
  assumes "store_ok e w"
  shows "store_ok e (snd (persist e name t fp out w))"
proof (cases "insert_task_cache (task_cache w)
    \<lparr>cache_id = uuid_counter w, task_name = name, cache_inputs = fp, cache_stdout = out\<rparr>")
  case None
  then show ?thesis
    using assms
    by (simp add: persist_def store_ok_def ids_fresh_def list_all_less_Suc)
next
  case (Some tc)
  then have tc: "tc = task_cache w @
      [\<lparr>cache_id = uuid_counter w, task_name = name, cache_inputs = fp, cache_stdout = out\<rparr>]"
    by (simp add: insert_task_cache_def split: if_splits)
  let ?r = "prepareOutputs e t (files w)"
  let ?tbl = "snd (insert_outputs e (uuid_counter w) (own_entries (fst ?r)) (task_output w))"
  have "primary_key_ok ?tbl" "digests_ok e ?tbl"
    "list_all (\<lambda>r. task_id r < Suc (uuid_counter w)) ?tbl"
    using assms
    by (simp_all add: store_ok_def ids_fresh_def insert_outputs_primary_key
        insert_outputs_digests insert_outputs_ids list_all_less_Suc)
  then show ?thesis
    using assms Some tc
    by (cases "snd (snd ?r)")
      (simp_all add: persist_def store_ok_def ids_fresh_def Let_def list_all_less_Suc)
qed

lemma store_ok_frame [simp]:
  "store_ok e (console_update f v) = store_ok e v"
  "store_ok e (files_update g v) = store_ok e v"
  by (simp_all add: store_ok_def ids_fresh_def)

lemma runOwn_store_ok:
  assumes "store_ok e w"
  shows "store_ok e (snd (runOwn e name t w))"
proof -
  have restore': "store_ok e v \<Longrightarrow> restoreFromCache e tid v = (r, v') \<Longrightarrow> store_ok e v'"
    for v tid r v'
    using restoreFromCache_frame [of e tid v]
    by (simp add: store_ok_def ids_fresh_def)
  have persist': "store_ok e v \<Longrightarrow> persist e name t fp out v = (r, v') \<Longrightarrow> store_ok e v'"
    for v fp out r v'
    using persist_store_ok [of e v name t fp out] by simp
  let ?h = "hashInputs e t (files w)"
  let ?w1 = "w\<lparr>console := console w @ snd ?h\<rparr>"
  have w1: "store_ok e ?w1"
    using assms by simp
  show ?thesis
  proof (cases "select_cached (task_cache ?w1) name (fst ?h)")
    case (Some row)
    obtain r v where rv: "restoreFromCache e (cache_id row) (log (CacheHit name) ?w1) = (r, v)"
      by (cases "restoreFromCache e (cache_id row) (log (CacheHit name) ?w1)")
    have "store_ok e (log (CacheHit name) ?w1)"
      using w1 by (simp add: log_def)
    then have v: "store_ok e v"
      using rv by (rule restore')
    then have "store_ok e (log (Stdout (cache_stdout row)) (log (OutputFromCache name) v))"
      by (simp add: log_def)
    with v Some rv show ?thesis
      by (cases r) (simp_all add: runOwn_def Let_def)
  next
    case None
    let ?w2 = "log (CommandLine (command t)) (log (Starting name) ?w1)"
    obtain so tree where sh: "shell e (command t) (files ?w2) = (so, tree)"
      by (cases "shell e (command t) (files ?w2)")
    have w2: "store_ok e (?w2\<lparr>files := tree\<rparr>)"
      using w1 by (simp add: log_def)
    show ?thesis
    proof (cases so)
      case None': None
      with None sh w2 show ?thesis
        by (simp add: runOwn_def Let_def)
    next
      case (Some out)
      obtain r v where rv: "persist e name t (fst ?h) out (?w2\<lparr>files := tree\<rparr>) = (r, v)"
        by (cases "persist e name t (fst ?h) out (?w2\<lparr>files := tree\<rparr>)")
      have v: "store_ok e v"
        using w2 rv by (rule persist')
      then have v': "store_ok e (log (Finished name) v)"
        by (simp add: log_def)
      have w2': "store_ok e (log (Finished name) (?w2\<lparr>files := tree\<rparr>))"
        using w2 by (simp add: log_def)
      from None sh Some rv v v' w2' show ?thesis
        by (cases r; cases "cache t") (simp_all add: runOwn_def Let_def)
    qed
  qed
qed

lemma runInherited_store_ok:
  assumes "store_ok e w"
  shows "store_ok e (snd (runInherited e name w))"
proof (cases "select_cached (task_cache w) name json_fingerprint_undefined")
  case None
  then show ?thesis
    using assms by (simp add: runInherited_def log_def)
next
  case (Some row)
  obtain r v where rv: "restoreFromCache e (cache_id row) (log (CacheHit name) w) = (r, v)"
    by (cases "restoreFromCache e (cache_id row) (log (CacheHit name) w)")
  have "store_ok e (log (CacheHit name) w)"
    using assms by (simp add: log_def)
  then have v: "store_ok e v"
    using restoreFromCache_frame [of e "cache_id row" "log (CacheHit name) w"] rv
    by (simp add: store_ok_def ids_fresh_def)
  then have "store_ok e (log (Stdout (cache_stdout row)) (log (OutputFromCache name) v))"
    by (simp add: log_def)
  with v Some rv show ?thesis
    by (cases r) (simp_all add: runInherited_def)
qed

lemma run_store_ok:
  "(store_ok e w \<longrightarrow> runTask n e ss name w = Some (r, w') \<longrightarrow> store_ok e w')"
  "(store_ok e w \<longrightarrow> runDeps n e ss ds w = Some (r, w') \<longrightarrow> store_ok e w')"
proof (induction n e ss name w and n e ss ds w arbitrary: r w' and r w'
    rule: runTask_runDeps.induct)
  case (1 e ss script_name w)
  then show ?case by simp
next
  case (2 n e ss script_name w)
  show ?case
  proof (cases "get_script ss script_name")
    case Undefined
    then show ?thesis by auto
  next
    case Inherited
    show ?thesis
    proof (intro impI)
      assume ok: "store_ok e w" and run: "runTask (Suc n) e ss script_name w = Some (r, w')"
      then have "runInherited e script_name w = (r, w')"
        using Inherited by simp
      then show "store_ok e w'"
        using runInherited_store_ok [OF ok, of script_name] by simp
    qed
  next
    case (Own t)
    let ?ds = "case depends_on t of None \<Rightarrow> [] | Some ds \<Rightarrow> ds"
    show ?thesis
    proof (intro impI)
      assume ok: "store_ok e w" and run: "runTask (Suc n) e ss script_name w = Some (r, w')"
      show "store_ok e w'"
      proof (cases "runDeps n e ss ?ds w")
        case None
        with Own run show ?thesis by simp
      next
        case (Some rd)
        obtain r1 w1 where rd: "rd = (r1, w1)"
          by (cases rd)
        have w1: "store_ok e w1"
          using "2.IH" [OF Own, of r1 w1] ok Some rd by simp
        show ?thesis
        proof (cases r1)
          case Returned
          then have "runOwn e script_name t w1 = (r, w')"
            using run Own Some rd by simp
          then show ?thesis
            using runOwn_store_ok [OF w1, of script_name t] by simp
        next
          case (Threw err)
          then show ?thesis
            using run Own Some rd w1 by simp
        qed
      qed
    qed
  qed
next
  case (3 n e ss w)
  then show ?case by auto
next
  case (4 n e ss dependency ds w)
  show ?case
  proof (intro impI)
    assume ok: "store_ok e w" and run: "runDeps n e ss (dependency # ds) w = Some (r, w')"
    show "store_ok e w'"
    proof (cases "runTask n e ss dependency w")
      case None
      with run show ?thesis by simp
    next
      case (Some rd)
      obtain r1 w1 where rd: "rd = (r1, w1)"
        by (cases rd)
      have w1: "store_ok e w1"
        using "4.IH"(1) [of r1 w1] ok Some rd by simp
      show ?thesis
      proof (cases r1)
        case Returned
        then show ?thesis
          using "4.IH"(2) [OF Some [unfolded rd] refl, of r w'] run Some rd w1 by simp
      next
        case (Threw err)
        then show ?thesis
          using run Some rd w1 by simp
      qed
    qed
  qed
qed

lemma store_ok_empty: "store_ok e empty_world"
  by (simp add: store_ok_def primary_key_ok_def digests_ok_def ids_fresh_def empty_world_def)

lemma store_ok_reset: "store_ok e w \<Longrightarrow> store_ok e (resetDatabase w)"
  by (simp add: store_ok_def primary_key_ok_def digests_ok_def ids_fresh_def resetDatabase_def
      log_def)

section \<open>Write failures during a restoration\<close>

text \<open>
  C5 at a failing input. The record has the snapshots \<open>a\<close> and \<open>b\<close>; in the working tree
  \<open>a\<close> is a directory and \<open>b\<close> is missing. \<^verbatim>\<open>Bun.write\<close> rejects for \<open>a\<close>, nothing catches
  it, and \<^verbatim>\<open>restoreFromCache\<close> ends there: no warning is printed and \<open>b\<close> is not restored.
  The second equation is the same tree with \<open>a\<close> recorded as absent: the failing
  \<^verbatim>\<open>unlinkSync\<close> is caught, a warning is printed and \<open>b\<close> is written.
\<close>

theorem restore_write_failure_aborts:
  "restoreFromCache demo_env 0 blocked_world
     = (Threw (WriteFailed ''a''),
        blocked_world\<lparr>console := [RestoringTask 0, RestoringFiles 2, Writing ''a'']\<rparr>)
   \<and> restoreFromCache demo_env 0
        (blocked_world\<lparr>task_output :=
           [(two_outputs ! 0)\<lparr>out_hash := None, out_content := None\<rparr>, two_outputs ! 1]\<rparr>)
     = (Returned,
        blocked_world\<lparr>task_output :=
             [(two_outputs ! 0)\<lparr>out_hash := None, out_content := None\<rparr>, two_outputs ! 1],
           files := [(''a'', Dir), (''b'', File ''y'')],
           console := [RestoringTask 0, RestoringFiles 2, Clearing ''a'', WarnDelete ''a'',
                       Writing ''b'']\<rparr>)"
  by (simp add: run_defs)

section \<open>Records and their snapshots\<close>

text \<open>
  C3, as stated, fails. The record is inserted first and each snapshot after it, every
  statement committed on its own. After the first statement of the run of \<open>build\<close> the
  lookup returns the record while none of its one snapshot is there; a run that starts
  from that store (the process was killed there, and \<^verbatim>\<open>out.txt\<close> removed since) is a cache
  hit that restores no file and does not launch the command.
\<close>

theorem partial_record_is_returned_by_lookup:
  "own_entries (fst (prepareOutputs demo_env build_task (files ran_world)))
     = [(''out.txt'', Some ''hi'')]
   \<and> select_cached
        (task_cache (persist_prefix 1 demo_env ''build'' build_task
           (json_fingerprint ''echo hi > out.txt'' []) [] ran_world))
        ''build'' (fst (hashInputs demo_env build_task []))
     = Some \<lparr>cache_id = 0, task_name = ''build'',
             cache_inputs = json_fingerprint ''echo hi > out.txt'' [], cache_stdout = []\<rparr>
   \<and> select_outputs
        (task_output (persist_prefix 1 demo_env ''build'' build_task
           (json_fingerprint ''echo hi > out.txt'' []) [] ran_world)) 0
     = []
   \<and> map_option (\<lambda>r. (fst r, files (snd r), drop 2 (console (snd r))))
        (runTask 1 demo_env [(''build'', build_task)] ''build''
          ((persist_prefix 1 demo_env ''build'' build_task
             (json_fingerprint ''echo hi > out.txt'' []) [] ran_world)\<lparr>files := []\<rparr>))
     = Some (Returned, [],
         [CacheHit ''build'', RestoringTask 0, RestoringFiles 0, OutputFromCache ''build'',
          Stdout []])"
  by (simp add: run_defs)

text \<open>
  C3, amended. When the persisting step of a run returns, the new record has exactly one
  snapshot row for every captured output path (a query returns them in the order of the
  paths), the rows of the other records are as before, and the record is the last row of
  its table; this store is the one reached after the last of the statements.
\<close>

theorem persist_writes_all_snapshots:
  assumes "ids_fresh w" and "persist e name t fp out w = (Returned, w')"
  shows "select_outputs (task_output w') (uuid_counter w)
      = sort_key out_path
          (map (snapshot_row e (uuid_counter w))
             (own_entries (fst (prepareOutputs e t (files w)))))
    \<and> (tid \<noteq> uuid_counter w \<longrightarrow>
         select_outputs (task_output w') tid = select_outputs (task_output w) tid)
    \<and> task_cache w' = task_cache w @
         [\<lparr>cache_id = uuid_counter w, task_name = name, cache_inputs = fp, cache_stdout = out\<rparr>]
    \<and> w' = persist_prefix (Suc (length (own_entries (fst (prepareOutputs e t (files w))))))
              e name t fp out w"
proof -
  let ?row = "\<lparr>cache_id = uuid_counter w, task_name = name, cache_inputs = fp, cache_stdout = out\<rparr>"
  let ?r = "prepareOutputs e t (files w)"
  let ?kvs = "own_entries (fst ?r)"
  obtain tc where tc: "insert_task_cache (task_cache w) ?row = Some tc"
    using assms(2) by (cases "insert_task_cache (task_cache w) ?row") (simp_all add: persist_def)
  then have tc_eq: "tc = task_cache w @ [?row]"
    by (simp add: insert_task_cache_def split: if_splits)
  obtain res tbl where ins: "insert_outputs e (uuid_counter w) ?kvs (task_output w) = (res, tbl)"
    by (cases "insert_outputs e (uuid_counter w) ?kvs (task_output w)")
  have cap: "snd (snd ?r) = Returned"
    using assms(2) tc by (cases "snd (snd ?r)") (simp_all add: persist_def Let_def)
  have w': "res = Returned"
    "w' = w\<lparr>uuid_counter := Suc (uuid_counter w), task_cache := tc,
           console := console w @ fst (snd ?r), task_output := tbl\<rparr>"
    using assms(2) tc ins cap by (simp_all add: persist_def Let_def)
  have tbl: "tbl = task_output w @ map (snapshot_row e (uuid_counter w)) ?kvs"
    using insert_outputs_Returned ins w'(1) by blast
  have old: "\<forall>r \<in> set (task_output w). task_id r \<noteq> uuid_counter w"
    using assms(1) by (auto simp: ids_fresh_def list_all_iff)
  have new: "\<forall>r \<in> set (map (snapshot_row e (uuid_counter w)) ?kvs). task_id r = uuid_counter w"
    by (auto simp: snapshot_row_def)
  have 1: "select_outputs (task_output w') (uuid_counter w)
      = sort_key out_path (map (snapshot_row e (uuid_counter w)) ?kvs)"
    using old new by (simp add: select_outputs_def w'(2) tbl filter_empty_conv filter_id_conv)
  have 2: "select_outputs (task_output w') tid = select_outputs (task_output w) tid"
    if "tid \<noteq> uuid_counter w"
    using that new by (simp add: select_outputs_def w'(2) tbl filter_empty_conv)
  have 3: "w' = persist_prefix (Suc (length ?kvs)) e name t fp out w"
    using tc ins cap by (simp add: persist_prefix_def Let_def w'(2))
  have 4: "task_cache w' = task_cache w @ [?row]"
    by (simp add: w'(2) tc_eq)
  show ?thesis
    using 1 2 3 4 by blast
qed

theorem persist_writes_all_snapshots_witness:
  "ids_fresh ran_world
   \<and> persist demo_env ''build'' build_task (json_fingerprint ''echo hi > out.txt'' []) []
        ran_world
     = (Returned, built_world\<lparr>console := console ran_world\<rparr>)
   \<and> select_outputs (task_output (built_world\<lparr>console := console ran_world\<rparr>)) 0
     = [\<lparr>task_id = 0, out_path = ''out.txt'', out_hash = Some ''sha256-hi'',
         out_content = Some ''hi''\<rparr>]"
proof -
  have h1: "ids_fresh ran_world"
    by (simp add: ids_fresh_def ran_world_def)
  have h2: "persist demo_env ''build'' build_task (json_fingerprint ''echo hi > out.txt'' []) []
        ran_world = (Returned, built_world\<lparr>console := console ran_world\<rparr>)"
    by (simp add: built_world_def run_defs)
  have c: "map (snapshot_row demo_env (uuid_counter ran_world))
        (own_entries (fst (prepareOutputs demo_env build_task (files ran_world))))
      = [\<lparr>task_id = 0, out_path = ''out.txt'', out_hash = Some ''sha256-hi'',
          out_content = Some ''hi''\<rparr>]"
    by (simp add: run_defs)
  have u: "uuid_counter ran_world = 0"
    by (simp add: ran_world_def)
  have "select_outputs (task_output (built_world\<lparr>console := console ran_world\<rparr>))
        (uuid_counter ran_world)
      = sort_key out_path
          (map (snapshot_row demo_env (uuid_counter ran_world))
             (own_entries (fst (prepareOutputs demo_env build_task (files ran_world)))))"
    using persist_writes_all_snapshots [OF h1 h2] by blast
  then show ?thesis
    using h1 h2 c u by simp
qed

section \<open>Hits and misses\<close>

lemma find_append_miss:
  "find P xs = None \<Longrightarrow> find P (xs @ ys) = find P ys"
  by (induction xs) (auto split: if_splits)

lemma find_append_hit:
  "find P xs = Some x \<Longrightarrow> find P (xs @ ys) = Some x"
  by (induction xs) (auto split: if_splits)

lemma persist_Returned_cache:
  assumes "persist e name t fp out w = (Returned, w')"
  shows "task_cache w' = task_cache w @
      [\<lparr>cache_id = uuid_counter w, task_name = name, cache_inputs = fp, cache_stdout = out\<rparr>]"
  using assms
  by (auto simp: persist_def Let_def insert_task_cache_def
      split: option.splits if_splits outcome.splits)

lemma runOwn_first_run:
  assumes enabled: "cache t \<noteq> Some False"
    and miss: "select_cached (task_cache w) name (fst (hashInputs e t (files w))) = None"
    and first: "runOwn e name t w = (Returned, w1)"
  shows "\<exists>out. fst (shell e (command t) (files w)) = Some out
      \<and> task_cache w1 = task_cache w @
           [\<lparr>cache_id = uuid_counter w, task_name = name,
             cache_inputs = fst (hashInputs e t (files w)), cache_stdout = out\<rparr>]
      \<and> launches name (console w1) = Suc (launches name (console w))"
proof -
  let ?h = "hashInputs e t (files w)"
  let ?w2 = "log (CommandLine (command t)) (log (Starting name) (w\<lparr>console := console w @ snd ?h\<rparr>))"
  obtain so tree where sh: "shell e (command t) (files w) = (so, tree)"
    by (cases "shell e (command t) (files w)")
  have en: "(case cache t of None \<Rightarrow> True | Some b \<Rightarrow> b)"
    using enabled by (cases "cache t") auto
  obtain out where out: "so = Some out"
    using first miss sh by (cases so) (simp_all add: runOwn_def Let_def log_def)
  obtain r w3 where p: "persist e name t (fst ?h) out (?w2\<lparr>files := tree\<rparr>) = (r, w3)"
    by (cases "persist e name t (fst ?h) out (?w2\<lparr>files := tree\<rparr>)")
  have r: "r = Returned" and w1: "w1 = log (Finished name) w3"
    using first miss sh out p en by (cases r; simp add: runOwn_def Let_def log_def)+
  have c: "task_cache w3 = task_cache w @
      [\<lparr>cache_id = uuid_counter w, task_name = name, cache_inputs = fst ?h, cache_stdout = out\<rparr>]"
    using persist_Returned_cache [OF p [unfolded r]] by (simp add: log_def)
  have l: "launches name (console w3) = Suc (launches name (console w))"
    using persist_quiet [of e name t "fst ?h" out "?w2\<lparr>files := tree\<rparr>" name] p
    by (simp add: log_def launches_append launches_simps hashInputs_quiet)
  show ?thesis
    using sh out c l by (simp add: w1 log_def launches_append launches_simps)
qed

lemma runOwn_hit:
  assumes "select_cached (task_cache w) name (fst (hashInputs e t (files w))) = Some row"
    and "cache_id row = tid" and "cache_stdout row = out"
  shows "runOwn e name t w =
      (case restoreFromCache e tid
              (log (CacheHit name) (w\<lparr>console := console w @ snd (hashInputs e t (files w))\<rparr>)) of
         (Threw err, w3) \<Rightarrow> (Threw err, w3)
       | (Returned, w3) \<Rightarrow> (Returned, log (Stdout out) (log (OutputFromCache name) w3)))"
    and "launches name (console (snd (runOwn e name t w))) = launches name (console w)"
proof -
  let ?w1 = "w\<lparr>console := console w @ snd (hashInputs e t (files w))\<rparr>"
  show eq: "runOwn e name t w =
      (case restoreFromCache e tid (log (CacheHit name) ?w1) of
         (Threw err, w3) \<Rightarrow> (Threw err, w3)
       | (Returned, w3) \<Rightarrow> (Returned, log (Stdout out) (log (OutputFromCache name) w3)))"
    using assms by (auto simp: runOwn_def Let_def split: prod.splits outcome.splits)
  obtain r w3 where rv: "restoreFromCache e tid (log (CacheHit name) ?w1) = (r, w3)"
    by (cases "restoreFromCache e tid (log (CacheHit name) ?w1)")
  have "launches name (console w3) = launches name (console w)"
    using restoreFromCache_frame [of e tid "log (CacheHit name) ?w1" name] rv
    by (simp add: log_def launches_append launches_simps hashInputs_quiet)
  then show "launches name (console (snd (runOwn e name t w))) = launches name (console w)"
    using rv by (cases r) (simp_all add: eq log_def launches_append launches_simps)
qed

lemma runOwn_cache_grows:
  "\<exists>more. task_cache (snd (runOwn e name t w)) = task_cache w @ more"
proof -
  have p: "\<exists>more. task_cache (snd (persist e name t fp out v)) = task_cache v @ more" for fp out v
    by (auto simp: persist_def Let_def insert_task_cache_def
        split: option.splits if_splits outcome.splits)
  have p': "persist e name t fp out v = (r, v') \<Longrightarrow> \<exists>more. task_cache v' = task_cache v @ more"
    for fp out v r v'
    using p [of fp out v] by simp
  have q: "restoreFromCache e tid v = (r, v') \<Longrightarrow> task_cache v' = task_cache v" for tid v r v'
    using restoreFromCache_frame [of e tid v] by simp
  show ?thesis
    by (auto simp: runOwn_def Let_def log_def split: option.splits prod.splits outcome.splits
        dest!: p' q)
qed

lemma runInherited_cache: "task_cache (snd (runInherited e name w)) = task_cache w"
proof (cases "select_cached (task_cache w) name json_fingerprint_undefined")
  case None
  then show ?thesis
    by (simp add: runInherited_def log_def)
next
  case (Some row)
  obtain r v where rv: "restoreFromCache e (cache_id row) (log (CacheHit name) w) = (r, v)"
    by (cases "restoreFromCache e (cache_id row) (log (CacheHit name) w)")
  then have "task_cache v = task_cache w"
    using restoreFromCache_frame [of e "cache_id row" "log (CacheHit name) w"]
    by (simp add: log_def)
  with Some rv show ?thesis
    by (cases r) (simp_all add: runInherited_def log_def)
qed

lemma run_cache_grows:
  "(runTask n e ss name w = Some (r, w') \<longrightarrow> (\<exists>more. task_cache w' = task_cache w @ more))"
  "(runDeps n e ss ds w = Some (r, w') \<longrightarrow> (\<exists>more. task_cache w' = task_cache w @ more))"
proof (induction n e ss name w and n e ss ds w arbitrary: r w' and r w'
    rule: runTask_runDeps.induct)
  case (1 e ss script_name w)
  then show ?case by simp
next
  case (2 n e ss script_name w)
  show ?case
  proof (cases "get_script ss script_name")
    case Undefined
    then show ?thesis by auto
  next
    case Inherited
    show ?thesis
    proof (intro impI)
      assume run: "runTask (Suc n) e ss script_name w = Some (r, w')"
      then have "runInherited e script_name w = (r, w')"
        using Inherited by simp
      then have "task_cache w' = task_cache w"
        using runInherited_cache [of e script_name w] by simp
      then show "\<exists>more. task_cache w' = task_cache w @ more"
        by simp
    qed
  next
    case (Own t)
    let ?ds = "case depends_on t of None \<Rightarrow> [] | Some ds \<Rightarrow> ds"
    show ?thesis
    proof (intro impI)
      assume run: "runTask (Suc n) e ss script_name w = Some (r, w')"
      show "\<exists>more. task_cache w' = task_cache w @ more"
      proof (cases "runDeps n e ss ?ds w")
        case None
        with Own run show ?thesis by simp
      next
        case (Some rd)
        obtain r1 w1 where rd: "rd = (r1, w1)"
          by (cases rd)
        obtain m1 where w1: "task_cache w1 = task_cache w @ m1"
          using "2.IH" [OF Own, of r1 w1] Some rd by auto
        show ?thesis
        proof (cases r1)
          case Returned
          then have "runOwn e script_name t w1 = (r, w')"
            using run Own Some rd by simp
          then obtain m2 where "task_cache w' = task_cache w1 @ m2"
            using runOwn_cache_grows [of e script_name t w1] by auto
          then show ?thesis
            using w1 by simp
        next
          case (Threw err)
          then show ?thesis
            using run Own Some rd w1 by simp
        qed
      qed
    qed
  qed
next
  case (3 n e ss w)
  then show ?case by auto
next
  case (4 n e ss dependency ds w)
  show ?case
  proof (intro impI)
    assume run: "runDeps n e ss (dependency # ds) w = Some (r, w')"
    show "\<exists>more. task_cache w' = task_cache w @ more"
    proof (cases "runTask n e ss dependency w")
      case None
      with run show ?thesis by simp
    next
      case (Some rd)
      obtain r1 w1 where rd: "rd = (r1, w1)"
        by (cases rd)
      obtain m1 where w1: "task_cache w1 = task_cache w @ m1"
        using "4.IH"(1) [of r1 w1] Some rd by auto
      show ?thesis
      proof (cases r1)
        case Returned
        then obtain m2 where "task_cache w' = task_cache w1 @ m2"
          using "4.IH"(2) [OF Some [unfolded rd] refl, of r w'] run Some rd by auto
        then show ?thesis
          using w1 by simp
      next
        case (Threw err)
        then show ?thesis
          using run Some rd w1 by simp
      qed
    qed
  qed
qed

section \<open>Running a task twice\<close>

text \<open>
  C1, as stated for every task, fails: a task with \<^verbatim>\<open>cache: false\<close> leaves no record, and
  its second run launches the command again.
\<close>

theorem uncached_task_runs_its_command_twice:
  "runTask 1 demo_env dev_scripts ''dev'' empty_world
     = Some (Returned,
         empty_world\<lparr>console :=
           [Starting ''dev'', CommandLine ''make dev'', Finished ''dev'']\<rparr>)
   \<and> runTask 1 demo_env dev_scripts ''dev''
        (empty_world\<lparr>console :=
           [Starting ''dev'', CommandLine ''make dev'', Finished ''dev'']\<rparr>)
     = Some (Returned,
         empty_world\<lparr>console :=
           [Starting ''dev'', CommandLine ''make dev'', Finished ''dev'',
            Starting ''dev'', CommandLine ''make dev'', Finished ''dev'']\<rparr>)"
  by (simp add: dev_scripts_def run_defs)

text \<open>
  C1, amended: for a task whose caching is not switched off. If its first run misses,
  launches the command (once) and returns, and the second run, after its dependencies,
  computes the same fingerprint, then the second run finds the record of the first,
  restores its outputs and, when the restoration returns, prints the standard output stored
  by the first run; it does not launch the command, whether the restoration returns or not.
\<close>

theorem second_run_is_cache_hit:
  assumes known: "map_of ss name = Some t" and enabled: "cache t \<noteq> Some False"
    and deps1: "runDeps n e ss (deps_of t) w = Some (Returned, wd)"
    and miss: "select_cached (task_cache wd) name (fst (hashInputs e t (files wd))) = None"
    and first: "runOwn e name t wd = (Returned, w1)"
    and deps2: "runDeps n e ss (deps_of t) w1 = Some (Returned, wd')"
    and same: "fst (hashInputs e t (files wd')) = fst (hashInputs e t (files wd))"
  shows "runTask (Suc n) e ss name w = Some (Returned, w1)
    \<and> launches name (console w1) = Suc (launches name (console wd))
    \<and> (\<exists>out. fst (shell e (command t) (files wd)) = Some out
          \<and> runTask (Suc n) e ss name w1 =
              Some (case restoreFromCache e (uuid_counter wd)
                           (log (CacheHit name)
                              (wd'\<lparr>console := console wd' @ snd (hashInputs e t (files wd'))\<rparr>)) of
                      (Threw err, w3) \<Rightarrow> (Threw err, w3)
                    | (Returned, w3) \<Rightarrow>
                        (Returned, log (Stdout out) (log (OutputFromCache name) w3))))
    \<and> (\<forall>r w2. runTask (Suc n) e ss name w1 = Some (r, w2) \<longrightarrow>
          launches name (console w2) = launches name (console wd'))"
proof -
  let ?fp = "fst (hashInputs e t (files wd))"
  have known': "get_script ss name = Own t"
    using known by (rule get_script_Own)
  have run1: "runTask (Suc n) e ss name w = Some (Returned, w1)"
    using known' deps1 first by (simp add: deps_of_def)
  obtain out where out: "fst (shell e (command t) (files wd)) = Some out"
    and c1: "task_cache w1 = task_cache wd @
        [\<lparr>cache_id = uuid_counter wd, task_name = name, cache_inputs = ?fp, cache_stdout = out\<rparr>]"
    and l1: "launches name (console w1) = Suc (launches name (console wd))"
    using runOwn_first_run [OF enabled miss first] by blast
  let ?row = "\<lparr>cache_id = uuid_counter wd, task_name = name, cache_inputs = ?fp, cache_stdout = out\<rparr>"
  obtain more where c2: "task_cache wd' = task_cache w1 @ more"
    using run_cache_grows(2) [of n e ss "deps_of t" w1 Returned wd'] deps2 by blast
  have "find (\<lambda>r. task_name r = name \<and> cache_inputs r = ?fp) (task_cache wd @ [?row]) = Some ?row"
    using miss by (simp add: select_cached_def find_append_miss)
  then have "find (\<lambda>r. task_name r = name \<and> cache_inputs r = ?fp)
      ((task_cache wd @ [?row]) @ more) = Some ?row"
    by (rule find_append_hit)
  then have hit: "select_cached (task_cache wd') name (fst (hashInputs e t (files wd'))) = Some ?row"
    by (simp add: select_cached_def same c2 c1)
  have run2: "runTask (Suc n) e ss name w1 = Some (runOwn e name t wd')"
    using known' deps2 by (simp add: deps_of_def)
  have eq: "runTask (Suc n) e ss name w1 =
      Some (case restoreFromCache e (uuid_counter wd)
                   (log (CacheHit name)
                      (wd'\<lparr>console := console wd' @ snd (hashInputs e t (files wd'))\<rparr>)) of
              (Threw err, w3) \<Rightarrow> (Threw err, w3)
            | (Returned, w3) \<Rightarrow> (Returned, log (Stdout out) (log (OutputFromCache name) w3)))"
    using runOwn_hit(1) [OF hit, of "uuid_counter wd" out] by (simp only: run2 cache_row.simps)
  have quiet: "launches name (console w2) = launches name (console wd')"
    if "runTask (Suc n) e ss name w1 = Some (r, w2)" for r w2
    using runOwn_hit(2) [OF hit refl refl] that [unfolded run2] by simp
  show ?thesis
    using run1 l1 out eq quiet by blast
qed

theorem second_run_is_cache_hit_witness:
  "map_of [(''build'', build_task)] ''build'' = Some build_task
   \<and> cache build_task \<noteq> Some False
   \<and> runDeps 0 demo_env [(''build'', build_task)] (deps_of build_task) empty_world
       = Some (Returned, empty_world)
   \<and> select_cached (task_cache empty_world) ''build''
       (fst (hashInputs demo_env build_task (files empty_world))) = None
   \<and> runTask (Suc 0) demo_env [(''build'', build_task)] ''build'' empty_world
       = Some (Returned, built_world)
   \<and> launches ''build'' (console built_world) = 1
   \<and> runTask (Suc 0) demo_env [(''build'', build_task)] ''build'' built_world
       = Some (Returned,
           built_world\<lparr>console := console built_world @
             [CacheHit ''build'', RestoringTask 0, RestoringFiles 1, Skipping ''out.txt'',
              OutputFromCache ''build'', Stdout []]\<rparr>)
   \<and> launches ''build''
        (console (built_world\<lparr>console := console built_world @
             [CacheHit ''build'', RestoringTask 0, RestoringFiles 1, Skipping ''out.txt'',
              OutputFromCache ''build'', Stdout []]\<rparr>)) = 1"
proof -
  let ?ss = "[(''build'', build_task)]"
  let ?w2 = "built_world\<lparr>console := console built_world @
             [CacheHit ''build'', RestoringTask 0, RestoringFiles 1, Skipping ''out.txt'',
              OutputFromCache ''build'', Stdout []]\<rparr>"
  have h1: "map_of ?ss ''build'' = Some build_task"
    by simp
  have h2: "cache build_task \<noteq> Some False"
    by (simp add: build_task_def demo_task_def)
  have h3: "runDeps 0 demo_env ?ss (deps_of build_task) empty_world = Some (Returned, empty_world)"
    by (simp add: deps_of_def build_task_def demo_task_def)
  have h4: "select_cached (task_cache empty_world) ''build''
       (fst (hashInputs demo_env build_task (files empty_world))) = None"
    by (simp add: select_cached_def empty_world_def)
  have h5: "runOwn demo_env ''build'' build_task empty_world = (Returned, built_world)"
    by (simp add: built_world_def run_defs)
  have h6: "runDeps 0 demo_env ?ss (deps_of build_task) built_world = Some (Returned, built_world)"
    by (simp add: deps_of_def build_task_def demo_task_def)
  have h7: "fst (hashInputs demo_env build_task (files built_world))
      = fst (hashInputs demo_env build_task (files empty_world))"
    by (simp add: hashInputs_def collect_inputs_def build_task_def demo_task_def Let_def)
  have l0: "launches ''build'' (console empty_world) = 0"
    by (simp add: empty_world_def launches_simps)
  have second: "runTask (Suc 0) demo_env ?ss ''build'' built_world = Some (Returned, ?w2)"
    by (simp add: built_world_def run_defs)
  have "runTask (Suc 0) demo_env ?ss ''build'' empty_world = Some (Returned, built_world)
    \<and> launches ''build'' (console built_world) = Suc (launches ''build'' (console empty_world))
    \<and> (\<forall>r w2. runTask (Suc 0) demo_env ?ss ''build'' built_world = Some (r, w2) \<longrightarrow>
          launches ''build'' (console w2) = launches ''build'' (console built_world))"
    using second_run_is_cache_hit [OF h1 h2 h3 h4 h5 h6 h7] by blast
  then have "runTask (Suc 0) demo_env ?ss ''build'' empty_world = Some (Returned, built_world)"
    "launches ''build'' (console built_world) = 1"
    "launches ''build'' (console ?w2) = 1"
    using second l0 by simp_all
  then show ?thesis
    using h1 h2 h3 h4 second by simp
qed

section \<open>Restoring twice\<close>



















section \<open>What the capture records\<close>

lemma set_update_cases: "kv \<in> set (AList.update k v al) \<Longrightarrow> kv = (k, v) \<or> kv \<in> set al"
  by (induction al) (auto split: if_splits)

lemma out_set_cases:
  assumes "out_set e po k v = Some po'"
  shows "snd po' = snd po \<or> snd po' = AList.update k v (snd po)"
  using assms
  by (auto simp: out_set_def split: if_splits proto.splits option.splits assignment.splits)

text \<open>Whether an assignment throws does not depend on the value assigned.\<close>

lemma out_set_rejects: "(out_set e po k v = None) = (out_set e po k v' = None)"
  by (simp add: out_set_def split: proto.splits option.splits assignment.splits)

lemma capture_file_Some:
  assumes "capture_file e tree po q = (Some po', warned)"
  shows "out_set e po q (read_bytes tree q) = Some po'"
proof (cases "read_bytes tree q")
  case None
  then show ?thesis
    using assms by (simp add: capture_file_def)
next
  case (Some content)
  show ?thesis
  proof (cases "out_set e po q (Some content)")
    case None
    then have "out_set e po q None = None"
      using out_set_rejects [of e po q "Some content" None] by simp
    then show ?thesis
      using assms Some None by (simp add: capture_file_def)
  next
    case (Some st)
    then show ?thesis
      using assms \<open>read_bytes tree q = Some content\<close> by (simp add: capture_file_def)
  qed
qed

text \<open>
  Whatever the prototype does, a property of \<^verbatim>\<open>outputs\<close> is created for a path that was
  visited, and holds what the read of that path gave.
\<close>

lemma capture_files_sound:
  assumes "distinct (map fst (snd (fst acc)))"
    and "\<forall>kv \<in> set (snd (fst acc)). fst kv \<in> S \<and> snd kv = read_bytes tree (fst kv)"
    and "set ps \<subseteq> S"
  shows "distinct (map fst (fst (capture_files e tree ps acc)))
    \<and> (\<forall>kv \<in> set (fst (capture_files e tree ps acc)).
          fst kv \<in> S \<and> snd kv = read_bytes tree (fst kv))"
  using assms
proof (induction ps arbitrary: acc)
  case Nil
  then show ?case by simp
next
  case (Cons q ps)
  obtain r warned where c: "capture_file e tree (fst acc) q = (r, warned)"
    by (cases "capture_file e tree (fst acc) q")
  show ?case
  proof (cases r)
    case None
    then show ?thesis
      using c Cons.prems(1,2) by simp
  next
    case (Some po)
    have q: "q \<in> S" and ps: "set ps \<subseteq> S"
      using Cons.prems(3) by simp_all
    have set: "out_set e (fst acc) q (read_bytes tree q) = Some po"
      using c Some capture_file_Some by simp
    consider (same) "snd po = snd (fst acc)"
      | (new) "snd po = AList.update q (read_bytes tree q) (snd (fst acc))"
      using out_set_cases [OF set] by blast
    note shape = this
    have d: "distinct (map fst (snd (fst (po, snd acc @ warned))))"
      using shape Cons.prems(1) by cases (simp_all add: distinct_update)
    have "fst kv \<in> S \<and> snd kv = read_bytes tree (fst kv)" if "kv \<in> set (snd po)" for kv
    proof -
      have "kv = (q, read_bytes tree q) \<or> kv \<in> set (snd (fst acc))"
        using shape
      proof cases
        case same
        then show ?thesis using that by simp
      next
        case new
        then have "kv \<in> set (AList.update q (read_bytes tree q) (snd (fst acc)))"
          using that by simp
        then show ?thesis by (rule set_update_cases)
      qed
      then show ?thesis
      proof
        assume "kv = (q, read_bytes tree q)"
        then show ?thesis using q by simp
      next
        assume "kv \<in> set (snd (fst acc))"
        then show ?thesis using Cons.prems(2) by blast
      qed
    qed
    then have i: "\<forall>kv \<in> set (snd (fst (po, snd acc @ warned))).
        fst kv \<in> S \<and> snd kv = read_bytes tree (fst kv)"
      by simp
    from Cons.IH [OF d i ps] show ?thesis
      using c Some by simp
  qed
qed

text \<open>
  As long as no path is \<^verbatim>\<open>__proto__\<close>, the prototype stays, no assignment throws and every
  path is recorded.
\<close>

lemma capture_files_plain:
  assumes "fst (fst acc) = ObjectPrototype" and "''__proto__'' \<notin> set ps"
  shows "snd (snd (capture_files e tree ps acc)) = Returned
    \<and> map_of (fst (capture_files e tree ps acc)) p
        = (if p \<in> set ps then Some (read_bytes tree p) else map_of (snd (fst acc)) p)"
  using assms
proof (induction ps arbitrary: acc)
  case Nil
  then show ?case by simp
next
  case (Cons q ps)
  have q: "q \<noteq> ''__proto__''" and ps: "''__proto__'' \<notin> set ps"
    using Cons.prems(2) by auto
  have set: "out_set e (fst acc) q v = Some (ObjectPrototype, AList.update q v (snd (fst acc)))"
    for v
    using q Cons.prems(1) by (simp add: out_set_def)
  obtain warned where step: "capture_file e tree (fst acc) q
      = (Some (ObjectPrototype, AList.update q (read_bytes tree q) (snd (fst acc))), warned)"
    by (cases "read_bytes tree q") (simp_all add: capture_file_def set)
  let ?acc = "((ObjectPrototype, AList.update q (read_bytes tree q) (snd (fst acc))),
      snd acc @ warned)"
  have proto: "fst (fst ?acc) = ObjectPrototype"
    by simp
  have m: "map_of (snd (fst ?acc)) p
      = (if p = q then Some (read_bytes tree q) else map_of (snd (fst acc)) p)"
    by (simp add: update_conv')
  have "capture_files e tree (q # ps) acc = capture_files e tree ps ?acc"
    by (simp add: step)
  then show ?case
    using Cons.IH [OF proto ps] m by auto
qed

lemma set_own_entries: "set (own_entries ob) = set ob"
  by (auto simp: own_entries_def)

lemma captured_entries:
  assumes "(p, v) \<in> set (own_entries (fst (prepareOutputs e t tree)))"
  shows "p \<in> set (output_paths e t tree) \<and> v = read_bytes tree p"
proof -
  let ?r = "capture_files e tree (output_paths e t tree) ((ObjectPrototype, []), [])"
  have ob: "prepareOutputs e t tree = ?r"
    by (simp add: prepareOutputs_def output_paths_def)
  have "\<forall>kv \<in> set (fst ?r).
      fst kv \<in> set (output_paths e t tree) \<and> snd kv = read_bytes tree (fst kv)"
    using capture_files_sound
      [of "((ObjectPrototype, []), [])" "set (output_paths e t tree)" tree
        "output_paths e t tree" e]
    by simp
  moreover have "(p, v) \<in> set (fst ?r)"
    using assms by (simp only: ob set_own_entries)
  ultimately have "fst (p, v) \<in> set (output_paths e t tree)
      \<and> snd (p, v) = read_bytes tree (fst (p, v))"
    by blast
  then show ?thesis
    by simp
qed

lemma captured_paths:
  assumes "''__proto__'' \<notin> set (output_paths e t tree)"
  shows "snd (snd (prepareOutputs e t tree)) = Returned"
    and "p \<in> set (output_paths e t tree) \<Longrightarrow>
         (p, read_bytes tree p) \<in> set (own_entries (fst (prepareOutputs e t tree)))"
proof -
  let ?r = "capture_files e tree (output_paths e t tree) ((ObjectPrototype, []), [])"
  have ob: "prepareOutputs e t tree = ?r"
    by (simp add: prepareOutputs_def output_paths_def)
  note plain = capture_files_plain
      [of "((ObjectPrototype, []), [])" "output_paths e t tree" e tree p]
  show "snd (snd (prepareOutputs e t tree)) = Returned"
    using plain assms by (simp add: ob)
  show "(p, read_bytes tree p) \<in> set (own_entries (fst (prepareOutputs e t tree)))"
    if "p \<in> set (output_paths e t tree)"
  proof -
    have "map_of (fst ?r) p = Some (read_bytes tree p)"
      using plain assms that by simp
    then have "(p, read_bytes tree p) \<in> set (fst ?r)"
      by (rule map_of_SomeD)
    then show ?thesis
      by (simp only: ob set_own_entries)
  qed
qed

lemma scan_regular: "p \<in> set (scan e pat tree) \<Longrightarrow> is_regular (map_of tree p)"
  by (simp add: scan_def)

lemma deletions_simps:
  "deletions [] = []"
  "deletions (Skipping p # evs) = deletions evs"
  "deletions (Writing p # evs) = deletions evs"
  "deletions (WarnDelete p # evs) = deletions evs"
  "deletions (Clearing p # evs) = p # deletions evs"
  by (simp_all add: deletions_def List.map_filter_simps)

lemma deletions_append: "deletions (xs @ ys) = deletions xs @ deletions ys"
  by (simp add: deletions_def List.map_filter_def)

lemma restore_rows_no_deletion:
  assumes "list_all (\<lambda>r. out_hash r \<noteq> None \<and> out_content r \<noteq> None) rs"
  shows "deletions (console (snd (restore_rows e rs w))) = deletions (console w)"
  using assms
proof (induction rs arbitrary: w)
  case Nil
  then show ?case by simp
next
  case (Cons r rs)
  then obtain h content where hc: "out_hash r = Some h" "out_content r = Some content"
    and rest: "list_all (\<lambda>r. out_hash r \<noteq> None \<and> out_content r \<noteq> None) rs"
    by auto
  show ?case
    using hc Cons.IH [OF rest]
    by (simp add: log_def deletions_append deletions_simps split: option.splits)
qed

text \<open>
  C10, as stated, fails. The \<^verbatim>\<open>catch\<close> of lines 92 to 95 is inside the inner loop and serves
  the paths of a glob as well: the glob \<^verbatim>\<open>dist/*\<close> reports the file, the read is refused,
  and the path is recorded as absent. Restoring that record of a task whose outputs are
  all globs deletes the file.
\<close>

theorem unreadable_glob_match_is_recorded_absent:
  "own_entries (fst (prepareOutputs demo_env locked_task (files locked_world)))
     = [(''dist/app.js'', None)]
   \<and> persist demo_env ''pack'' locked_task ''fp'' [] locked_world
     = (Returned,
        locked_world\<lparr>task_cache :=
            [\<lparr>cache_id = 0, task_name = ''pack'', cache_inputs = ''fp'', cache_stdout = []\<rparr>],
          task_output :=
            [\<lparr>task_id = 0, out_path = ''dist/app.js'', out_hash = None, out_content = None\<rparr>],
          console := [WarnOutput ''dist/app.js''], uuid_counter := 1\<rparr>)
   \<and> restoreFromCache demo_env 0
        (locked_world\<lparr>task_output :=
            [\<lparr>task_id = 0, out_path = ''dist/app.js'', out_hash = None, out_content = None\<rparr>]\<rparr>)
     = (Returned,
        locked_world\<lparr>task_output :=
            [\<lparr>task_id = 0, out_path = ''dist/app.js'', out_hash = None, out_content = None\<rparr>],
          files := [],
          console := [RestoringTask 0, RestoringFiles 1, Clearing ''dist/app.js'']\<rparr>)"
  by (simp add: run_defs)

text \<open>
  A literal pattern \<^verbatim>\<open>__proto__\<close> whose file is missing: line 94 assigns \<^verbatim>\<open>null\<close> to the
  prototype of \<^verbatim>\<open>outputs\<close> and no absence is recorded.
\<close>

lemma missing_proto_path_is_not_recorded:
  "prepareOutputs demo_env ((demo_task ''true'')\<lparr>outputs := Some [''__proto__'']\<rparr>) []
     = ([], [WarnOutput ''__proto__''], Returned)"
  by (simp add: run_defs)

text \<open>
  When the file \<^verbatim>\<open>__proto__\<close> is there, line 91 makes its content the prototype of \<^verbatim>\<open>outputs\<close>.
  An output \<^verbatim>\<open>length\<close> after it cannot be assigned, in line 91 or in line 94, and the
  capture ends with an exception.
\<close>

lemma array_prototype_rejects_assignment:
  "prepareOutputs demo_env ((demo_task ''true'')\<lparr>outputs := Some [''__proto__'', ''length'']\<rparr>)
      [(''__proto__'', File ''xy''), (''length'', File ''z'')]
     = ([], [WarnOutput ''length''], Threw (AssignmentFailed ''length''))"
  by (simp add: run_defs)

text \<open>
  C10, amended. Every entry of the capture is for a resolved path, whichever kind of pattern
  gave it, and holds what the read of that path gave: an absence only where the read failed,
  a content only for a file that is there with that content. Unless one of the resolved
  paths is \<^verbatim>\<open>__proto__\<close>, every resolved path has its entry, so the absences are exactly the
  resolved paths whose read failed. For a task whose outputs are all globs and whose matched
  files could all be read at capture time, restoring the rows of the captured record, as a
  query returns them, tries no deletion.
\<close>

theorem absence_only_for_failed_reads:
  "((p, v) \<in> set (own_entries (fst (prepareOutputs e t tree))) \<longrightarrow>
      p \<in> set (output_paths e t tree) \<and> v = read_bytes tree p)
   \<and> (''__proto__'' \<notin> set (output_paths e t tree) \<longrightarrow>
        snd (snd (prepareOutputs e t tree)) = Returned
        \<and> ((p, None) \<in> set (own_entries (fst (prepareOutputs e t tree))))
            = (p \<in> set (output_paths e t tree) \<and> read_bytes tree p = None))
   \<and> (outputs t = Some pats \<longrightarrow> (\<forall>pat \<in> set pats. CHR ''*'' \<in> set pat) \<longrightarrow>
        (\<forall>pat \<in> set pats. \<forall>q \<in> set (scan e pat tree). read_bytes tree q \<noteq> None) \<longrightarrow>
        deletions (console (snd (restore_rows e
           (sort_key out_path
              (map (snapshot_row e tid) (own_entries (fst (prepareOutputs e t tree))))) w)))
          = deletions (console w))"
proof -
  have 1: "p \<in> set (output_paths e t tree) \<and> v = read_bytes tree p"
    if "(p, v) \<in> set (own_entries (fst (prepareOutputs e t tree)))"
    using that by (rule captured_entries)
  have 2: "((p, None) \<in> set (own_entries (fst (prepareOutputs e t tree))))
      = (p \<in> set (output_paths e t tree) \<and> read_bytes tree p = None)"
    if "''__proto__'' \<notin> set (output_paths e t tree)"
  proof
    assume "(p, None) \<in> set (own_entries (fst (prepareOutputs e t tree)))"
    then show "p \<in> set (output_paths e t tree) \<and> read_bytes tree p = None"
      using captured_entries [of p None e t tree] by simp
  next
    assume "p \<in> set (output_paths e t tree) \<and> read_bytes tree p = None"
    then show "(p, None) \<in> set (own_entries (fst (prepareOutputs e t tree)))"
      using captured_paths(2) [OF that, of p] by simp
  qed
  have returns: "snd (snd (prepareOutputs e t tree)) = Returned"
    if "''__proto__'' \<notin> set (output_paths e t tree)"
    using that by (rule captured_paths(1))
  have 3: "deletions (console (snd (restore_rows e
           (sort_key out_path
              (map (snapshot_row e tid) (own_entries (fst (prepareOutputs e t tree))))) w)))
          = deletions (console w)"
    if pats: "outputs t = Some pats" and globs: "\<forall>pat \<in> set pats. CHR ''*'' \<in> set pat"
      and readable: "\<forall>pat \<in> set pats. \<forall>q \<in> set (scan e pat tree). read_bytes tree q \<noteq> None"
  proof -
    have all: "\<forall>q \<in> set (output_paths e t tree). read_bytes tree q \<noteq> None"
      using pats globs readable by (auto simp: output_paths_def resolve_def)
    have "snd kv \<noteq> None" if "kv \<in> set (own_entries (fst (prepareOutputs e t tree)))" for kv
    proof -
      have "(fst kv, snd kv) \<in> set (own_entries (fst (prepareOutputs e t tree)))"
        using that by simp
      then have "fst kv \<in> set (output_paths e t tree) \<and> snd kv = read_bytes tree (fst kv)"
        by (rule captured_entries)
      then show ?thesis
        using all by simp
    qed
    then have "\<forall>kv \<in> set (own_entries (fst (prepareOutputs e t tree))). snd kv \<noteq> None"
      by blast
    then have "list_all (\<lambda>r. out_hash r \<noteq> None \<and> out_content r \<noteq> None)
        (sort_key out_path
           (map (snapshot_row e tid) (own_entries (fst (prepareOutputs e t tree)))))"
      by (auto simp: list_all_iff snapshot_row_def)
    then show ?thesis
      by (rule restore_rows_no_deletion)
  qed
  show ?thesis
    using 1 2 returns 3 by blast
qed

theorem absence_only_for_failed_reads_witness:
  "outputs locked_task = Some [''dist/*'']
   \<and> CHR ''*'' \<in> set ''dist/*''
   \<and> scan demo_env ''dist/*'' (files readable_world) = [''dist/app.js'']
   \<and> output_paths demo_env locked_task (files readable_world) = [''dist/app.js'']
   \<and> output_paths demo_env locked_task (files locked_world) = [''dist/app.js'']
   \<and> read_bytes (files readable_world) ''dist/app.js'' = Some ''js''
   \<and> read_bytes (files locked_world) ''dist/app.js'' = None
   \<and> own_entries (fst (prepareOutputs demo_env locked_task (files readable_world)))
       = [(''dist/app.js'', Some ''js'')]
   \<and> (''dist/app.js'', None)
        \<notin> set (own_entries (fst (prepareOutputs demo_env locked_task (files readable_world))))
   \<and> (''dist/app.js'', None)
        \<in> set (own_entries (fst (prepareOutputs demo_env locked_task (files locked_world))))
   \<and> deletions (console (snd (restore_rows demo_env
         (sort_key out_path
            (map (snapshot_row demo_env 0)
               (own_entries (fst (prepareOutputs demo_env locked_task (files readable_world))))))
         (readable_world\<lparr>files := []\<rparr>)))) = []"
proof -
  have h1: "outputs locked_task = Some [''dist/*'']"
    by (simp add: locked_task_def demo_task_def)
  have h2: "CHR ''*'' \<in> set ''dist/*''"
    by simp
  have sc: "scan demo_env ''dist/*'' (files readable_world) = [''dist/app.js'']"
    by (simp add: readable_world_def run_defs)
  have rb: "read_bytes (files readable_world) ''dist/app.js'' = Some ''js''"
    by (simp add: readable_world_def run_defs)
  have h3: "\<forall>pat \<in> set [''dist/*'']. \<forall>q \<in> set (scan demo_env pat (files readable_world)).
         read_bytes (files readable_world) q \<noteq> None"
    using sc rb by simp
  have p1: "output_paths demo_env locked_task (files readable_world) = [''dist/app.js'']"
    by (simp add: output_paths_def locked_task_def readable_world_def run_defs)
  have p2: "output_paths demo_env locked_task (files locked_world) = [''dist/app.js'']"
    "read_bytes (files locked_world) ''dist/app.js'' = None"
    by (simp_all add: output_paths_def locked_task_def locked_world_def run_defs)
  have n1: "''__proto__'' \<notin> set (output_paths demo_env locked_task (files readable_world))"
    by (simp add: p1)
  have n2: "''__proto__'' \<notin> set (output_paths demo_env locked_task (files locked_world))"
    by (simp add: p2)
  have en: "own_entries (fst (prepareOutputs demo_env locked_task (files readable_world)))
       = [(''dist/app.js'', Some ''js'')]"
    by (simp add: run_defs)
  have m: "(''dist/app.js'', Some ''js'')
      \<in> set (own_entries (fst (prepareOutputs demo_env locked_task (files readable_world))))"
    by (simp add: en)
  have c: "deletions (console (readable_world\<lparr>files := []\<rparr>)) = []"
    by (simp add: readable_world_def deletions_simps)
  note T = absence_only_for_failed_reads
    [of "''dist/app.js''" _ demo_env locked_task "files readable_world"
      "[''dist/*'']" 0 "readable_world\<lparr>files := []\<rparr>"]
  note U = absence_only_for_failed_reads
    [of "''dist/app.js''" None demo_env locked_task "files locked_world"
      "[''dist/*'']" 0 "locked_world"]
  have a: "''dist/app.js'' \<in> set (output_paths demo_env locked_task (files readable_world))
      \<and> Some ''js'' = read_bytes (files readable_world) ''dist/app.js''"
    using T [of "Some ''js''", THEN conjunct1] m by blast
  have b: "(''dist/app.js'', None)
        \<notin> set (own_entries (fst (prepareOutputs demo_env locked_task (files readable_world))))"
    using T [of None, THEN conjunct2, THEN conjunct1, THEN mp, OF n1, THEN conjunct2] rb
    by simp
  have b': "(''dist/app.js'', None)
        \<in> set (own_entries (fst (prepareOutputs demo_env locked_task (files locked_world))))"
    using U [THEN conjunct2, THEN conjunct1, THEN mp, OF n2, THEN conjunct2] p2 by simp
  have d: "deletions (console (snd (restore_rows demo_env
         (sort_key out_path
            (map (snapshot_row demo_env 0)
               (own_entries (fst (prepareOutputs demo_env locked_task (files readable_world))))))
         (readable_world\<lparr>files := []\<rparr>)))) = deletions (console (readable_world\<lparr>files := []\<rparr>))"
    using T [of None, THEN conjunct2, THEN conjunct2] h1 h3 by simp
  show ?thesis
    using h1 h2 sc rb p1 p2 en a b b' d c by simp
qed

section \<open>Stable sorting with a comparator\<close>






lemma linear_compare_subset: "linear_compare cmp S \<Longrightarrow> T \<subseteq> S \<Longrightarrow> linear_compare cmp T"
  unfolding linear_compare_def by (meson subsetD)





section \<open>Objects\<close>








section \<open>The object of digests\<close>









section \<open>The serialisation can be read back\<close>






lemma json_quote_Cons: "json_quote s = CHR 0x22 # tl (json_quote s)"
  by (simp add: json_quote_def)







section \<open>The fingerprint is deterministic\<close>






section \<open>When two fingerprints are equal\<close>


text \<open>
  A readable input whose path is \<^verbatim>\<open>__proto__\<close>: line 63 assigns the digest to the accessor
  and the file is not in the fingerprint, whatever it holds.
\<close>

lemma proto_input_is_not_fingerprinted:
  "hashInputs demo_env ((demo_task ''make'')\<lparr>inputs := Some [''__proto__'']\<rparr>)
      [(''__proto__'', File content)]
     = (json_fingerprint ''make'' [], [])"
  by (simp add: run_defs)



end
